theory Spec2Isabelle
  imports Main
begin

section \<open>A shallow embedding of tetris.py\<close>

text \<open>
  The game of \<^verbatim>\<open>src/tetris.py\<close>: the module constants, the class \<^verbatim>\<open>Piece\<close> and the
  controller class \<^verbatim>\<open>Tetris\<close>. Python integers are \<^typ>\<open>int\<close>, \<^verbatim>\<open>None\<close> in a board
  cell is \<^term>\<open>None\<close>, a colour name is a \<^typ>\<open>string\<close>. The tkinter canvas and label
  only receive drawing commands and are not part of the state; what the controller reads
  and writes (board, piece, score, running, drop speed) is.
\<close>

subsection \<open>Module constants\<close>

definition CANVAS_WIDTH :: int where "CANVAS_WIDTH = 300"
definition CANVAS_HEIGHT :: int where "CANVAS_HEIGHT = 600"
definition BLOCK_SIZE :: int where "BLOCK_SIZE = 30"
definition BOARD_WIDTH :: int where "BOARD_WIDTH = CANVAS_WIDTH div BLOCK_SIZE"
definition BOARD_HEIGHT :: int where "BOARD_HEIGHT = CANVAS_HEIGHT div BLOCK_SIZE"
definition FALL_SPEED :: int where "FALL_SPEED = 1"
definition FAST_DROP_SPEED :: int where "FAST_DROP_SPEED = 100"

text \<open>
  A shape is a list of rows of integer cells. The rows of \<^verbatim>\<open>SHAPES\<close> are Python lists;
  \<^verbatim>\<open>rotate\<close> builds its rows with \<^verbatim>\<open>zip\<close>, as tuples. The code only enumerates a row,
  but \<^verbatim>\<open>==\<close> tells a tuple from a list, so the two are kept apart; \<open>cells\<close> is the
  sequence of integers a row holds.
\<close>

datatype row = PyList "int list" | PyTuple "int list"

fun cells :: "row \<Rightarrow> int list" where
  "cells (PyList vs) = vs"
| "cells (PyTuple vs) = vs"

type_synonym matrix = "row list"

definition SHAPES :: "matrix list" where
  "SHAPES =
    [ [PyList [1, 1, 1, 1]],
      [PyList [1, 1], PyList [1, 1]],
      [PyList [0, 1, 0], PyList [1, 1, 1]],
      [PyList [1, 1, 0], PyList [0, 1, 1]],
      [PyList [0, 1, 1], PyList [1, 1, 0]],
      [PyList [1, 1, 1], PyList [1, 0, 0]],
      [PyList [1, 1, 1], PyList [0, 0, 1]] ]"

definition SHAPE_COLORS :: "string list" where
  "SHAPE_COLORS = [''cyan'', ''yellow'', ''purple'', ''green'', ''red'', ''orange'', ''blue'']"

subsection \<open>Python sequences\<close>

datatype error = IndexError

text \<open>
  Subscripting a sequence of length \<open>n\<close> with \<open>i\<close>: a negative index counts from the end,
  anything outside \<open>[-n, n)\<close> raises \<^verbatim>\<open>IndexError\<close>.
\<close>

definition py_index :: "nat \<Rightarrow> int \<Rightarrow> nat option" where
  "py_index n i =
     (if 0 \<le> i \<and> i < int n then Some (nat i)
      else if - int n \<le> i \<and> i < 0 then Some (nat (int n + i))
      else None)"

definition list_get :: "'a list \<Rightarrow> int \<Rightarrow> error + 'a" where
  "list_get xs i = (case py_index (length xs) i of None \<Rightarrow> Inl IndexError | Some k \<Rightarrow> Inr (xs ! k))"

definition list_set :: "'a list \<Rightarrow> int \<Rightarrow> 'a \<Rightarrow> error + 'a list" where
  "list_set xs i v =
     (case py_index (length xs) i of None \<Rightarrow> Inl IndexError | Some k \<Rightarrow> Inr (xs[k := v]))"

text \<open>\<^verbatim>\<open>enumerate(xs)\<close>, counting from \<open>n\<close>.\<close>

fun py_enumerate :: "int \<Rightarrow> 'a list \<Rightarrow> (int \<times> 'a) list" where
  "py_enumerate n [] = []"
| "py_enumerate n (v # vs) = (n, v) # py_enumerate (n + 1) vs"

text \<open>
  \<^verbatim>\<open>zip(*rows)\<close>: no argument gives nothing; otherwise one tuple per position, until the
  shortest row is exhausted.
\<close>

function zip_star :: "'a list list \<Rightarrow> 'a list list" where
  "zip_star rows =
     (if rows = [] \<or> [] \<in> set rows then [] else map hd rows # zip_star (map tl rows))"
  by pat_completeness auto
termination
proof (relation "measure (\<lambda>rows. length (hd rows))")
  show "wf (measure (\<lambda>rows::'a list list. length (hd rows)))"
    by simp
next
  fix rows :: "'a list list"
  assume "\<not> (rows = [] \<or> [] \<in> set rows)"
  then show "(map tl rows, rows) \<in> measure (\<lambda>rows. length (hd rows))"
    by (cases rows; cases "hd rows") auto
qed

declare zip_star.simps [simp del]

subsection \<open>Piece\<close>

record piece =
  shape :: matrix
  color :: string
  x :: int
  y :: int
  pixel_y :: int

text \<open>\<^verbatim>\<open>Piece.__init__\<close>: \<^verbatim>\<open>shape[0]\<close> raises on a shape without rows.\<close>

definition Piece_init :: "matrix \<Rightarrow> string \<Rightarrow> error + piece" where
  "Piece_init sh col =
     (case list_get sh 0 of
        Inl e \<Rightarrow> Inl e
      | Inr row0 \<Rightarrow>
          Inr \<lparr> shape = sh, color = col,
                x = BOARD_WIDTH div 2 - int (length (cells row0)) div 2,
                y = 0, pixel_y = 0 \<rparr>)"

text \<open>
  \<^verbatim>\<open>Piece.rotate\<close>: \<^verbatim>\<open>list(zip(*self.shape[::-1]))\<close>, a list of the tuples that
  \<^verbatim>\<open>zip\<close> yields from the reversed rows.
\<close>

definition rotate_shape :: "matrix \<Rightarrow> matrix" where
  "rotate_shape sh = map PyTuple (zip_star (map cells (rev sh)))"

definition rotate :: "piece \<Rightarrow> piece" where
  "rotate p = p\<lparr>shape := rotate_shape (shape p)\<rparr>"

subsection \<open>Tetris\<close>

type_synonym cell = "string option"
type_synonym grid = "cell list list"

record game =
  board :: grid
  current_piece :: piece
  score :: int
  running :: bool
  drop_speed :: int

text \<open>\<^verbatim>\<open>self.board[r][c]\<close> and \<^verbatim>\<open>self.board[r][c] = v\<close>.\<close>

definition board_get :: "grid \<Rightarrow> int \<Rightarrow> int \<Rightarrow> error + cell" where
  "board_get b r c = (case list_get b r of Inl e \<Rightarrow> Inl e | Inr row \<Rightarrow> list_get row c)"

definition board_set :: "grid \<Rightarrow> int \<Rightarrow> int \<Rightarrow> cell \<Rightarrow> error + grid" where
  "board_set b r c v =
     (case list_get b r of
        Inl e \<Rightarrow> Inl e
      | Inr row \<Rightarrow>
          (case list_set row c v of
             Inl e \<Rightarrow> Inl e
           | Inr row' \<Rightarrow> list_set b r row'))"

text \<open>
  The two nested \<^verbatim>\<open>for ... in enumerate(...)\<close> loops of \<^verbatim>\<open>valid_move\<close>, \<^verbatim>\<open>lock_piece\<close>
  and \<^verbatim>\<open>draw_board\<close> visit the cells of the shape row by row: \<open>(row index, column
  index, cell)\<close> in that order.
\<close>

definition cells_of :: "matrix \<Rightarrow> (int \<times> int \<times> int) list" where
  "cells_of sh =
     concat (map (\<lambda>(r, row). map (\<lambda>(c, v). (r, c, v)) (py_enumerate 0 (cells row)))
               (py_enumerate 0 sh))"

text \<open>
  The loop body of \<^verbatim>\<open>valid_move\<close> over the remaining cells, for the piece anchored at
  \<open>(px, py)\<close> and the offset \<open>(dx, dy)\<close>. The first component of the result logs every
  subscript \<^verbatim>\<open>self.board[new_y][new_x]\<close> the loop evaluates, as \<open>(new_y, new_x)\<close>, in
  order; the second is what the function returns (\<open>Inl\<close> when the subscript raises).
\<close>

fun check_cells ::
  "grid \<Rightarrow> int \<Rightarrow> int \<Rightarrow> int \<Rightarrow> int \<Rightarrow> (int \<times> int \<times> int) list \<Rightarrow> (int \<times> int) list \<times> (error + bool)"
where
  "check_cells b px py dx dy [] = ([], Inr True)"
| "check_cells b px py dx dy ((r, c, v) # rest) =
     (if v = 1 then
        (let new_x = px + c + dx; new_y = py + r + dy in
         if new_x < 0 \<or> new_x \<ge> BOARD_WIDTH \<or> new_y \<ge> BOARD_HEIGHT then ([], Inr False)
         else if new_y \<ge> 0 then
           (case board_get b new_y new_x of
              Inl e \<Rightarrow> ([(new_y, new_x)], Inl e)
            | Inr content \<Rightarrow>
                if content \<noteq> None then ([(new_y, new_x)], Inr False)
                else (case check_cells b px py dx dy rest of
                        (reads, res) \<Rightarrow> ((new_y, new_x) # reads, res)))
         else check_cells b px py dx dy rest)
      else check_cells b px py dx dy rest)"

definition valid_move_log :: "game \<Rightarrow> int \<Rightarrow> int \<Rightarrow> (int \<times> int) list \<times> (error + bool)" where
  "valid_move_log g dx dy =
     check_cells (board g) (x (current_piece g)) (y (current_piece g)) dx dy
       (cells_of (shape (current_piece g)))"

definition valid_move :: "game \<Rightarrow> int \<Rightarrow> int \<Rightarrow> error + bool" where
  "valid_move g dx dy = snd (valid_move_log g dx dy)"

definition valid_move_reads :: "game \<Rightarrow> int \<Rightarrow> int \<Rightarrow> (int \<times> int) list" where
  "valid_move_reads g dx dy = fst (valid_move_log g dx dy)"

text \<open>
  \<^verbatim>\<open>new_piece\<close>: \<^verbatim>\<open>random.choice\<close> picks one element of a non-empty sequence. The two
  draws of the random generator are arguments of the model: \<open>choice xs k\<close> is the element
  the \<open>k\<close>-th outcome selects.
\<close>

definition choice :: "'a list \<Rightarrow> nat \<Rightarrow> 'a" where
  "choice xs k = xs ! (k mod length xs)"

definition new_piece :: "nat \<Rightarrow> nat \<Rightarrow> error + piece" where
  "new_piece ks kc = Piece_init (choice SHAPES ks) (choice SHAPE_COLORS kc)"

text \<open>
  \<^verbatim>\<open>draw_board\<close> changes nothing the controller reads back; it subscripts
  \<^verbatim>\<open>self.board[y][x]\<close> for every \<open>y\<close> in \<^verbatim>\<open>range(BOARD_HEIGHT)\<close> and \<open>x\<close> in
  \<^verbatim>\<open>range(BOARD_WIDTH)\<close>, which raises when the board is smaller than that.
\<close>

definition draw_board :: "game \<Rightarrow> error + unit" where
  "draw_board g =
     (if list_all (\<lambda>r. list_all (\<lambda>c. \<not> isl (board_get (board g) r c)) [0..BOARD_WIDTH - 1])
           [0..BOARD_HEIGHT - 1]
      then Inr () else Inl IndexError)"

text \<open>
  \<^verbatim>\<open>clear_full_rows\<close>: keep the rows that still have a \<^verbatim>\<open>None\<close> cell, count the others
  against \<^verbatim>\<open>BOARD_HEIGHT\<close>, add the score, and insert that many empty rows at index 0
  (\<^verbatim>\<open>range\<close> of a negative number is empty).
\<close>

definition clear_full_rows :: "game \<Rightarrow> game" where
  "clear_full_rows g =
     (let new_board = filter (\<lambda>row. list_ex (\<lambda>v. v = None) row) (board g);
          cleared_rows = BOARD_HEIGHT - int (length new_board)
      in g\<lparr> score := score g + cleared_rows * 100,
             board := replicate (nat cleared_rows) (replicate (nat BOARD_WIDTH) None) @ new_board \<rparr>)"

definition game_over :: "game \<Rightarrow> game" where
  "game_over g = g\<lparr>running := False\<rparr>"

text \<open>
  The writing loop of \<^verbatim>\<open>lock_piece\<close>. The board is mutated in place, so an
  \<^verbatim>\<open>IndexError\<close> leaves the cells written so far: the error carries that board.
\<close>

fun write_cells :: "grid \<Rightarrow> piece \<Rightarrow> (int \<times> int \<times> int) list \<Rightarrow> (error \<times> grid) + grid" where
  "write_cells b p [] = Inr b"
| "write_cells b p ((r, c, v) # rest) =
     (if v = 1 then
        (case board_set b (y p + r) (x p + c) (Some (color p)) of
           Inl e \<Rightarrow> Inl (e, b)
         | Inr b' \<Rightarrow> write_cells b' p rest)
      else write_cells b p rest)"

text \<open>
  An operation of the controller either returns, or raises with the state as it has been
  mutated up to that point.
\<close>

definition lock_piece :: "game \<Rightarrow> nat \<Rightarrow> nat \<Rightarrow> (error \<times> game) + game" where
  "lock_piece g ks kc =
     (case write_cells (board g) (current_piece g) (cells_of (shape (current_piece g))) of
        Inl (e, b) \<Rightarrow> Inl (e, g\<lparr>board := b\<rparr>)
      | Inr b \<Rightarrow>
          (let g1 = clear_full_rows (g\<lparr>board := b\<rparr>) in
           case new_piece ks kc of
             Inl e \<Rightarrow> Inl (e, g1)
           | Inr p \<Rightarrow>
               (let g2 = g1\<lparr>current_piece := p\<rparr> in
                case valid_move g2 0 1 of
                  Inl e \<Rightarrow> Inl (e, g2)
                | Inr ok \<Rightarrow>
                    if \<not> ok \<and> y (current_piece g2) = 0 then Inr (game_over g2) else Inr g2)))"

text \<open>
  \<^verbatim>\<open>handle_key\<close>, on \<^verbatim>\<open>event.keysym\<close>. \<^verbatim>\<open>and\<close> evaluates \<^verbatim>\<open>valid_move\<close> only for the
  matching key; a false test falls through to the next \<^verbatim>\<open>elif\<close>.
\<close>

definition handle_key :: "game \<Rightarrow> string \<Rightarrow> (error \<times> game) + game" where
  "handle_key g keysym =
     (let p = current_piece g in
      case (if keysym = ''Left'' then valid_move g (- 1) 0 else Inr False) of
        Inl e \<Rightarrow> Inl (e, g)
      | Inr True \<Rightarrow> Inr (g\<lparr>current_piece := p\<lparr>x := x p - 1\<rparr>\<rparr>)
      | Inr False \<Rightarrow>
          (case (if keysym = ''Right'' then valid_move g 1 0 else Inr False) of
             Inl e \<Rightarrow> Inl (e, g)
           | Inr True \<Rightarrow> Inr (g\<lparr>current_piece := p\<lparr>x := x p + 1\<rparr>\<rparr>)
           | Inr False \<Rightarrow>
               if keysym = ''Down'' then Inr (g\<lparr>drop_speed := FAST_DROP_SPEED\<rparr>)
               else if keysym = ''Up'' then
                 (let original_shape = shape p;
                      g1 = g\<lparr>current_piece := rotate p\<rparr> in
                  case valid_move g1 0 0 of
                    Inl e \<Rightarrow> Inl (e, g1)
                  | Inr ok \<Rightarrow>
                      if \<not> ok
                      then Inr (g1\<lparr>current_piece := (current_piece g1)\<lparr>shape := original_shape\<rparr>\<rparr>)
                      else Inr g1)
               else Inr g))"

definition check_collision :: "game \<Rightarrow> nat \<Rightarrow> nat \<Rightarrow> (error \<times> game) + game" where
  "check_collision g ks kc =
     (case valid_move g 0 1 of
        Inl e \<Rightarrow> Inl (e, g)
      | Inr ok \<Rightarrow> if \<not> ok then lock_piece g ks kc else Inr g)"

text \<open>
  \<^verbatim>\<open>update\<close>. The result is the new state together with whether
  \<^verbatim>\<open>self.root.after(10, self.update)\<close> was called, that is, whether another tick is
  scheduled. \<open>ks\<close> and \<open>kc\<close> are the random draws a lock in this tick would use.
\<close>

definition update :: "game \<Rightarrow> nat \<Rightarrow> nat \<Rightarrow> (error \<times> game) + (game \<times> bool)" where
  "update g ks kc =
     (let p = current_piece g;
          p1 = p\<lparr>pixel_y := pixel_y p + drop_speed g\<rparr>;
          g1 = g\<lparr>current_piece := p1\<rparr>
      in case (if pixel_y p1 \<ge> (y p1 + 1) * BLOCK_SIZE
               then check_collision
                      (g1\<lparr>current_piece := p1\<lparr>pixel_y := (y p1 + 1) * BLOCK_SIZE, y := y p1 + 1\<rparr>\<rparr>)
                      ks kc
               else Inr g1) of
           Inl err \<Rightarrow> Inl err
         | Inr g2 \<Rightarrow>
             (case draw_board g2 of
                Inl e \<Rightarrow> Inl (e, g2)
              | Inr _ \<Rightarrow>
                  (let g3 = g2\<lparr>drop_speed := FALL_SPEED\<rparr> in Inr (g3, running g3))))"

text \<open>
  \<^verbatim>\<open>Tetris.__init__\<close>: the fields as assigned (\<open>new_game\<close>), then the first call of
  \<^verbatim>\<open>update\<close>. An exception of \<^verbatim>\<open>new_piece\<close> would leave no object at all.
\<close>

definition empty_board :: grid where
  "empty_board = replicate (nat BOARD_HEIGHT) (replicate (nat BOARD_WIDTH) None)"

definition new_game :: "nat \<Rightarrow> nat \<Rightarrow> error + game" where
  "new_game ks kc =
     (case new_piece ks kc of
        Inl e \<Rightarrow> Inl e
      | Inr p \<Rightarrow>
          Inr \<lparr> board = empty_board, current_piece = p, score = 0, running = True,
                drop_speed = FALL_SPEED \<rparr>)"

definition Tetris_init :: "nat \<Rightarrow> nat \<Rightarrow> nat \<Rightarrow> nat \<Rightarrow> error + ((error \<times> game) + (game \<times> bool))" where
  "Tetris_init ks kc ks' kc' =
     (case new_game ks kc of
        Inl e \<Rightarrow> Inl e
      | Inr g \<Rightarrow> Inr (update g ks' kc'))"

text \<open>
  The event loop: \<^verbatim>\<open>root.bind("<Key>", self.handle_key)\<close> delivers key events at any
  time, and \<^verbatim>\<open>update\<close> runs again only when the previous call has scheduled it with
  \<^verbatim>\<open>root.after\<close>. A session is the state together with whether a tick is pending; a
  \<open>Tick\<close> carries the random draws of that tick and cannot occur while none is pending.
  The run stops at the first exception.
\<close>

datatype event = Key string | Tick nat nat

fun run :: "game \<times> bool \<Rightarrow> event list \<Rightarrow> (error \<times> game) + (game \<times> bool)" where
  "run s [] = Inr s"
| "run (g, pending) (Key k # es) =
     (case handle_key g k of Inl err \<Rightarrow> Inl err | Inr g' \<Rightarrow> run (g', pending) es)"
| "run (g, pending) (Tick ks kc # es) =
     (if pending
      then (case update g ks kc of Inl err \<Rightarrow> Inl err | Inr s' \<Rightarrow> run s' es)
      else run (g, pending) es)"

subsection \<open>Notions used by the properties\<close>

text \<open>
  The board as \<^verbatim>\<open>__init__\<close> builds it and every operation keeps it: \<^verbatim>\<open>BOARD_HEIGHT\<close>
  rows of \<^verbatim>\<open>BOARD_WIDTH\<close> cells.
\<close>

definition wf_board :: "grid \<Rightarrow> bool" where
  "wf_board b \<longleftrightarrow> int (length b) = BOARD_HEIGHT \<and> (\<forall>row \<in> set b. int (length row) = BOARD_WIDTH)"

text \<open>
  A target cell \<open>(row, col)\<close> that rejects a move: outside the columns, below the last
  row, or, from row 0 downwards, on a board cell that holds a colour.
\<close>

definition cell_blocked :: "grid \<Rightarrow> int \<Rightarrow> int \<Rightarrow> bool" where
  "cell_blocked b col row \<longleftrightarrow>
     col < 0 \<or> col \<ge> BOARD_WIDTH \<or> row \<ge> BOARD_HEIGHT \<or>
     (row \<ge> 0 \<and> (\<exists>colour. board_get b row col = Inr (Some colour)))"

text \<open>The state \<^verbatim>\<open>__init__\<close> assigns when the generator draws the T shape in purple.\<close>

definition start_T :: game where
  "start_T =
     \<lparr> board = empty_board,
       current_piece =
         \<lparr> shape = [PyList [0, 1, 0], PyList [1, 1, 1]], color = ''purple'', x = 4, y = 0, pixel_y = 0 \<rparr>,
       score = 0, running = True, drop_speed = FALL_SPEED \<rparr>"

text \<open>A full row has no empty cell.\<close>

definition full_row :: "cell list \<Rightarrow> bool" where
  "full_row row \<longleftrightarrow> (\<forall>v \<in> set row. v \<noteq> None)"

text \<open>A board whose bottom row is full, below a row with one locked cell.\<close>

definition one_full_row :: game where
  "one_full_row =
     \<lparr> board = replicate 18 (replicate 10 None)
                @ [Some ''cyan'' # replicate 9 None, replicate 10 (Some ''red'')],
       current_piece =
         \<lparr> shape = [PyList [0, 1, 0], PyList [1, 1, 1]], color = ''purple'', x = 4, y = 0, pixel_y = 0 \<rparr>,
       score = 300, running = True, drop_speed = FALL_SPEED \<rparr>"

text \<open>A horizontal I piece on row 18 between two locked cells.\<close>

definition boxed_I :: game where
  "boxed_I =
     \<lparr> board = replicate 18 (replicate 10 None)
                @ [[None, None, Some ''red'', None, None, None, None, Some ''red'', None, None],
                   replicate 10 None],
       current_piece = \<lparr> shape = [PyList [1, 1, 1, 1]], color = ''cyan'', x = 3, y = 18, pixel_y = 540 \<rparr>,
       score = 0, running = True, drop_speed = FALL_SPEED \<rparr>"

text \<open>The state an operation leaves behind, whether it returned or raised.\<close>

definition state_after :: "(error \<times> game) + game \<Rightarrow> game" where
  "state_after res = (case res of Inl (e, g) \<Rightarrow> g | Inr g \<Rightarrow> g)"

text \<open>
  The two halves of the gravity step of \<^verbatim>\<open>update\<close>: whether the advanced pixel offset
  reaches the next cell boundary, and the state in which \<^verbatim>\<open>check_collision\<close> is then
  called (offset snapped to the boundary, \<open>y\<close> incremented).
\<close>

definition fallen :: "game \<Rightarrow> game" where
  "fallen g =
     g\<lparr>current_piece := (current_piece g)
          \<lparr>pixel_y := (y (current_piece g) + 1) * BLOCK_SIZE, y := y (current_piece g) + 1\<rparr>\<rparr>"

definition crosses_boundary :: "game \<Rightarrow> bool" where
  "crosses_boundary g \<longleftrightarrow>
     pixel_y (current_piece g) + drop_speed g \<ge> (y (current_piece g) + 1) * BLOCK_SIZE"

text \<open>
  Boards set up by hand, each with an O piece resting on the floor at the left: one with
  four locked cells in row 0, one with column 4 filled from row 1 down. The
  \<open>_falling\<close> states are one pixel before the O piece reaches row 18.
\<close>

definition top_block :: game where
  "top_block =
     \<lparr> board = [None, None, None, Some ''red'', Some ''red'', Some ''red'', Some ''red'', None, None, None]
                # replicate 19 (replicate 10 None),
       current_piece = \<lparr> shape = [PyList [1, 1], PyList [1, 1]], color = ''yellow'', x = 0, y = 18, pixel_y = 540 \<rparr>,
       score = 0, running = True, drop_speed = FALL_SPEED \<rparr>"

definition top_block_falling :: game where
  "top_block_falling = top_block\<lparr>current_piece := (current_piece top_block)\<lparr>y := 17, pixel_y := 539\<rparr>\<rparr>"

definition top_block_locked :: game where
  "top_block_locked =
     \<lparr> board = [None, None, None, Some ''red'', Some ''red'', Some ''red'', Some ''red'', None, None, None]
                # replicate 17 (replicate 10 None)
                @ replicate 2 [Some ''yellow'', Some ''yellow'', None, None, None, None, None, None, None, None],
       current_piece = \<lparr> shape = [PyList [1, 1, 1, 1]], color = ''cyan'', x = 3, y = 0, pixel_y = 0 \<rparr>,
       score = 0, running = True, drop_speed = FALL_SPEED \<rparr>"

definition tall_stack :: game where
  "tall_stack =
     \<lparr> board = replicate 10 None
                # replicate 19 [None, None, None, None, Some ''cyan'', None, None, None, None, None],
       current_piece = \<lparr> shape = [PyList [1, 1], PyList [1, 1]], color = ''yellow'', x = 0, y = 18, pixel_y = 540 \<rparr>,
       score = 0, running = True, drop_speed = FALL_SPEED \<rparr>"

definition tall_stack_falling :: game where
  "tall_stack_falling = tall_stack\<lparr>current_piece := (current_piece tall_stack)\<lparr>y := 17, pixel_y := 539\<rparr>\<rparr>"

definition tall_stack_over :: game where
  "tall_stack_over =
     \<lparr> board = replicate 10 None
                # replicate 17 [None, None, None, None, Some ''cyan'', None, None, None, None, None]
                @ replicate 2 [Some ''yellow'', Some ''yellow'', None, None, Some ''cyan'', None, None, None, None, None],
       current_piece = \<lparr> shape = [PyList [1, 1, 1, 1]], color = ''cyan'', x = 3, y = 0, pixel_y = 0 \<rparr>,
       score = 0, running = False, drop_speed = FALL_SPEED \<rparr>"

text \<open>
  Two sessions. \<open>fast_ticks n\<close> is \<open>n\<close> ticks with the Down key pressed before each, so
  that each tick moves the piece one row. In the first session the T piece is turned
  upside down and dropped, then the I piece is moved to the left wall, dropped to row 17
  and moved one column back to the right. In the second the I piece is dropped to row 16,
  turned upright, and the Down key is pressed.
\<close>

definition fast_ticks :: "nat \<Rightarrow> event list" where
  "fast_ticks n = concat (replicate n [Key ''Down'', Tick 0 0])"

definition T_start :: game where
  "T_start = start_T\<lparr>current_piece := (current_piece start_T)\<lparr>pixel_y := 1\<rparr>\<rparr>"

definition overlap_events :: "event list" where
  "overlap_events =
     [Key ''Up'', Key ''Up''] @ fast_ticks 18
     @ [Key ''Left'', Key ''Left'', Key ''Left''] @ fast_ticks 17 @ [Key ''Right'']"

definition T_board :: grid where
  "T_board =
     replicate 18 (replicate 10 None)
     @ [[None, None, None, None, Some ''purple'', Some ''purple'', Some ''purple'', None, None, None],
        [None, None, None, None, None, Some ''purple'', None, None, None, None]]"

definition before_overlap :: game where
  "before_overlap =
     \<lparr> board = T_board,
       current_piece = \<lparr> shape = [PyList [1, 1, 1, 1]], color = ''cyan'', x = 1, y = 17, pixel_y = 510 \<rparr>,
       score = 0, running = True, drop_speed = FALL_SPEED \<rparr>"

definition after_overlap :: game where
  "after_overlap =
     before_overlap\<lparr>current_piece := (current_piece before_overlap)\<lparr>y := 18, pixel_y := 540\<rparr>\<rparr>"

definition I_start :: game where
  "I_start =
     \<lparr> board = empty_board,
       current_piece = \<lparr> shape = [PyList [1, 1, 1, 1]], color = ''cyan'', x = 3, y = 0, pixel_y = 1 \<rparr>,
       score = 0, running = True, drop_speed = FALL_SPEED \<rparr>"

definition before_crash :: game where
  "before_crash =
     \<lparr> board = empty_board,
       current_piece = \<lparr> shape = [PyTuple [1], PyTuple [1], PyTuple [1], PyTuple [1]], color = ''cyan'', x = 3, y = 16, pixel_y = 480 \<rparr>,
       score = 0, running = True, drop_speed = FAST_DROP_SPEED \<rparr>"

definition crashed :: game where
  "crashed =
     \<lparr> board = replicate 17 (replicate 10 None)
                @ replicate 3 [None, None, None, Some ''cyan'', None, None, None, None, None, None],
       current_piece = \<lparr> shape = [PyTuple [1], PyTuple [1], PyTuple [1], PyTuple [1]], color = ''cyan'', x = 3, y = 17, pixel_y = 510 \<rparr>,
       score = 0, running = True, drop_speed = FAST_DROP_SPEED \<rparr>"

text \<open>
  What holds of the state throughout a session: the board has its dimensions, the piece
  is at row 0 or below, and row 0 of the board is empty.
\<close>

definition session_inv :: "game \<Rightarrow> bool" where
  "session_inv g \<longleftrightarrow>
     wf_board (board g) \<and> 0 \<le> y (current_piece g) \<and> list_all (\<lambda>v. v = None) (board g ! 0)"

section \<open>Properties\<close>

subsection \<open>Board subscripts and the cells of a shape\<close>

lemma board_dims: "BOARD_WIDTH = 10" "BOARD_HEIGHT = 20"
  by (simp_all add: BOARD_WIDTH_def BOARD_HEIGHT_def CANVAS_WIDTH_def CANVAS_HEIGHT_def BLOCK_SIZE_def)

lemma list_get_in_range: "0 \<le> i \<Longrightarrow> i < int (length xs) \<Longrightarrow> list_get xs i = Inr (xs ! nat i)"
  by (simp add: list_get_def py_index_def)

lemma board_get_in_range:
  assumes "wf_board b" "0 \<le> r" "r < BOARD_HEIGHT" "0 \<le> c" "c < BOARD_WIDTH"
  shows "board_get b r c = Inr (b ! nat r ! nat c)"
proof -
  from assms have r: "nat r < length b" by (auto simp: wf_board_def)
  then have "b ! nat r \<in> set b" by simp
  with assms have "c < int (length (b ! nat r))" by (simp add: wf_board_def)
  with assms r show ?thesis
    by (simp add: board_get_def list_get_in_range wf_board_def)
qed

lemma check_cells_result:
  assumes "wf_board b"
  shows "snd (check_cells b px py dx dy cs) =
         Inr (\<not> (\<exists>(r, c, v) \<in> set cs. v = 1 \<and> cell_blocked b (px + c + dx) (py + r + dy)))"
proof (induction cs)
  case Nil
  then show ?case by simp
next
  case (Cons a cs)
  obtain r c v where a: "a = (r, c, v)" by (cases a)
  show ?case
  proof (cases "v = 1")
    case False
    with Cons a show ?thesis by simp
  next
    case True
    show ?thesis
    proof (cases "px + c + dx < 0 \<or> px + c + dx \<ge> BOARD_WIDTH \<or> py + r + dy \<ge> BOARD_HEIGHT")
      case True
      with \<open>v = 1\<close> a show ?thesis by (auto simp: cell_blocked_def Let_def)
    next
      case inb: False
      show ?thesis
      proof (cases "py + r + dy \<ge> 0")
        case False
        with inb \<open>v = 1\<close> a Cons show ?thesis by (simp add: cell_blocked_def Let_def)
      next
        case True
        with inb assms have "board_get b (py + r + dy) (px + c + dx)
              = Inr (b ! nat (py + r + dy) ! nat (px + c + dx))"
          by (intro board_get_in_range) auto
        with True inb \<open>v = 1\<close> a Cons show ?thesis
          by (auto simp: cell_blocked_def Let_def split: prod.splits)
      qed
    qed
  qed
qed

lemma set_py_enumerate:
  "set (py_enumerate n xs) = {(n + int i, xs ! i) | i. i < length xs}"
proof (induction xs arbitrary: n)
  case Nil
  then show ?case by simp
next
  case (Cons a xs)
  have "{(n + int i, (a # xs) ! i) | i. i < length (a # xs)}
        = insert (n, a) {(n + 1 + int i, xs ! i) | i. i < length xs}" (is "?L = ?R")
  proof (rule set_eqI)
    fix p
    show "p \<in> ?L \<longleftrightarrow> p \<in> ?R"
    proof
      assume "p \<in> ?L"
      then obtain i where i: "i < length (a # xs)" "p = (n + int i, (a # xs) ! i)" by auto
      then show "p \<in> ?R" by (cases i) auto
    next
      assume "p \<in> ?R"
      then consider "p = (n, a)" | i where "i < length xs" "p = (n + 1 + int i, xs ! i)" by auto
      then show "p \<in> ?L"
      proof cases
        case 1
        then have "0 < length (a # xs) \<and> p = (n + int 0, (a # xs) ! 0)" by simp
        then show ?thesis by blast
      next
        case 2
        then have "Suc i < length (a # xs) \<and> p = (n + int (Suc i), (a # xs) ! Suc i)" by simp
        then show ?thesis by blast
      qed
    qed
  qed
  with Cons show ?case by simp
qed

lemma set_cells_of:
  "set (cells_of sh) =
     {(int i, int j, cells (sh ! i) ! j) | i j. i < length sh \<and> j < length (cells (sh ! i))}"
  by (auto simp: cells_of_def set_py_enumerate)

lemma wf_empty_board: "wf_board empty_board"
  by (simp add: wf_board_def empty_board_def board_dims)

subsection \<open>Move validation\<close>

lemma valid_move_result:
  assumes "wf_board (board g)"
  shows "valid_move g dx dy =
         Inr (\<not> (\<exists>i j. i < length (shape (current_piece g)) \<and> j < length (cells (shape (current_piece g) ! i)) \<and>
                   cells (shape (current_piece g) ! i) ! j = 1 \<and>
                   cell_blocked (board g) (x (current_piece g) + int j + dx)
                                          (y (current_piece g) + int i + dy)))"
  unfolding valid_move_def valid_move_log_def check_cells_result [OF assms] set_cells_of
  by auto

text \<open>
  C1. On every board of \<^verbatim>\<open>BOARD_HEIGHT\<close> by \<^verbatim>\<open>BOARD_WIDTH\<close> cells, for every piece and
  every offset \<open>(dx, dy)\<close>, \<^verbatim>\<open>valid_move\<close> returns \<^verbatim>\<open>False\<close> exactly when some cell of
  the shape with value 1, sent to column \<open>piece.x + j + dx\<close> and row \<open>piece.y + i + dy\<close>,
  has its column below 0 or at least \<^verbatim>\<open>BOARD_WIDTH\<close>, or its row at least
  \<^verbatim>\<open>BOARD_HEIGHT\<close>, or its row at least 0 and a coloured board cell there; otherwise it
  returns \<^verbatim>\<open>True\<close>. A cell sent to a negative row is judged on its column alone. Every
  board a session reaches has these dimensions (\<open>session_boards\<close>).
\<close>

theorem valid_move_false_iff:
  assumes "wf_board (board g)"
  shows "(valid_move g dx dy = Inr False \<longleftrightarrow>
           (\<exists>i j. i < length (shape (current_piece g)) \<and> j < length (cells (shape (current_piece g) ! i)) \<and>
                  cells (shape (current_piece g) ! i) ! j = 1 \<and>
                  cell_blocked (board g) (x (current_piece g) + int j + dx)
                                         (y (current_piece g) + int i + dy))) \<and>
         (valid_move g dx dy = Inr False \<or> valid_move g dx dy = Inr True)"
  unfolding valid_move_result [OF assms] by auto

theorem valid_move_false_iff_witness:
  "wf_board (board start_T) \<and> valid_move start_T (- 5) 0 = Inr False \<and> valid_move start_T 0 (- 5) = Inr True"
proof -
  have wf: "wf_board (board start_T)"
    by (simp add: start_T_def wf_empty_board)
  have "(1::nat) < length (shape (current_piece start_T)) \<and>
        (0::nat) < length (cells (shape (current_piece start_T) ! 1)) \<and>
        cells (shape (current_piece start_T) ! 1) ! 0 = 1 \<and>
        cell_blocked (board start_T) (x (current_piece start_T) + int 0 + (- 5))
                                     (y (current_piece start_T) + int 1 + 0)"
    by (simp add: start_T_def cell_blocked_def)
  then have blocked: "\<exists>i j. i < length (shape (current_piece start_T)) \<and>
        j < length (cells (shape (current_piece start_T) ! i)) \<and>
        cells (shape (current_piece start_T) ! i) ! j = 1 \<and>
        cell_blocked (board start_T) (x (current_piece start_T) + int j + (- 5))
                                     (y (current_piece start_T) + int i + 0)"
    by blast
  have free: "\<not> (\<exists>i j. i < length (shape (current_piece start_T)) \<and>
        j < length (cells (shape (current_piece start_T) ! i)) \<and>
        cells (shape (current_piece start_T) ! i) ! j = 1 \<and>
        cell_blocked (board start_T) (x (current_piece start_T) + int j + 0)
                                     (y (current_piece start_T) + int i + (- 5)))"
    by (auto simp: start_T_def cell_blocked_def board_dims less_Suc_eq nth_Cons')
  from valid_move_false_iff [OF wf, of "- 5" 0] valid_move_false_iff [OF wf, of 0 "- 5"] blocked free wf
  show ?thesis by blast
qed

lemma check_cells_reads:
  "(r, c) \<in> set (fst (check_cells b px py dx dy cs)) \<Longrightarrow>
     0 \<le> r \<and> r < BOARD_HEIGHT \<and> 0 \<le> c \<and> c < BOARD_WIDTH"
proof (induction cs)
  case Nil
  then show ?case by simp
next
  case (Cons a cs)
  obtain r' c' v where a: "a = (r', c', v)" by (cases a)
  from Cons.prems Cons.IH show ?case
    unfolding a by (auto simp: Let_def split: if_splits sum.splits prod.splits)
qed

lemma check_cells_reads_accepted:
  "snd (check_cells b px py dx dy cs) = Inr True \<Longrightarrow>
   fst (check_cells b px py dx dy cs) =
     map (\<lambda>(r, c, v). (py + r + dy, px + c + dx))
         (filter (\<lambda>(r, c, v). v = 1 \<and> py + r + dy \<ge> 0) cs)"
proof (induction cs)
  case Nil
  then show ?case by simp
next
  case (Cons a cs)
  obtain r' c' v where a: "a = (r', c', v)" by (cases a)
  from Cons.prems Cons.IH show ?case
    unfolding a by (auto simp: Let_def split: if_splits sum.splits prod.splits)
qed

lemma valid_move_total: "wf_board (board g) \<Longrightarrow> \<exists>ok. valid_move g dx dy = Inr ok"
  by (simp add: valid_move_result)

text \<open>
  C10. \<^verbatim>\<open>valid_move\<close> never subscripts the board out of range. For every state and every
  offset, each subscript \<^verbatim>\<open>self.board[new_y][new_x]\<close> it evaluates has
  \<open>0 \<le> new_y < BOARD_HEIGHT\<close> and \<open>0 \<le> new_x < BOARD_WIDTH\<close>; when the move is
  accepted these subscripts are exactly the occupied cells sent to a row at least 0, so a
  negative row is skipped and never wraps around to the end of the list. On a board of
  \<^verbatim>\<open>BOARD_HEIGHT\<close> by \<^verbatim>\<open>BOARD_WIDTH\<close> cells the function therefore returns a truth
  value (it does not raise), and every subscript reads the grid cell at that very row
  and column.
\<close>

theorem valid_move_reads_in_grid:
  "(\<forall>(r, c) \<in> set (valid_move_reads g dx dy).
        0 \<le> r \<and> r < BOARD_HEIGHT \<and> 0 \<le> c \<and> c < BOARD_WIDTH) \<and>
   (valid_move g dx dy = Inr True \<longrightarrow>
      valid_move_reads g dx dy =
        map (\<lambda>(r, c, v). (y (current_piece g) + r + dy, x (current_piece g) + c + dx))
            (filter (\<lambda>(r, c, v). v = 1 \<and> y (current_piece g) + r + dy \<ge> 0)
                    (cells_of (shape (current_piece g))))) \<and>
   (wf_board (board g) \<longrightarrow>
      (\<exists>ok. valid_move g dx dy = Inr ok) \<and>
      (\<forall>(r, c) \<in> set (valid_move_reads g dx dy).
          board_get (board g) r c = Inr (board g ! nat r ! nat c)))"
proof (intro conjI impI)
  show inside: "\<forall>(r, c) \<in> set (valid_move_reads g dx dy).
        0 \<le> r \<and> r < BOARD_HEIGHT \<and> 0 \<le> c \<and> c < BOARD_WIDTH"
    unfolding valid_move_reads_def valid_move_log_def
    using check_cells_reads by blast
  show "valid_move g dx dy = Inr True \<Longrightarrow>
      valid_move_reads g dx dy =
        map (\<lambda>(r, c, v). (y (current_piece g) + r + dy, x (current_piece g) + c + dx))
            (filter (\<lambda>(r, c, v). v = 1 \<and> y (current_piece g) + r + dy \<ge> 0)
                    (cells_of (shape (current_piece g))))"
    unfolding valid_move_def valid_move_reads_def valid_move_log_def
    by (rule check_cells_reads_accepted)
  show "wf_board (board g) \<Longrightarrow> \<exists>ok. valid_move g dx dy = Inr ok"
    by (rule valid_move_total)
  show "wf_board (board g) \<Longrightarrow> \<forall>(r, c) \<in> set (valid_move_reads g dx dy).
          board_get (board g) r c = Inr (board g ! nat r ! nat c)"
    using inside by (auto intro: board_get_in_range)
qed

lemma cells_of_T: "cells_of [PyList [0, 1, 0], PyList [1, 1, 1]] = [(0,0,0),(0,1,1),(0,2,0),(1,0,1),(1,1,1),(1,2,1)]"
  by (simp add: cells_of_def)

lemma board_get_empty_board:
  "0 \<le> r \<Longrightarrow> r < 20 \<Longrightarrow> 0 \<le> c \<Longrightarrow> c < 10 \<Longrightarrow> board_get empty_board r c = Inr None"
  using board_get_in_range [OF wf_empty_board, of r c]
  by (simp add: board_dims empty_board_def)

theorem valid_move_reads_in_grid_witness:
  "wf_board (board start_T) \<and>
   valid_move start_T 0 (- 1) = Inr True \<and>
   valid_move_reads start_T 0 (- 1) = [(0, 4), (0, 5), (0, 6)] \<and>
   list_all (\<lambda>(r, c). 0 \<le> r \<and> r < BOARD_HEIGHT \<and> 0 \<le> c \<and> c < BOARD_WIDTH \<and>
                      board_get (board start_T) r c = Inr (board start_T ! nat r ! nat c))
     (valid_move_reads start_T 0 (- 1))"
proof -
  have wf: "wf_board (board start_T)"
    by (simp add: start_T_def wf_empty_board)
  have log: "valid_move_log start_T 0 (- 1) = ([(0, 4), (0, 5), (0, 6)], Inr True)"
    by (simp add: valid_move_log_def start_T_def cells_of_T board_dims board_get_empty_board)
  then have ok: "valid_move start_T 0 (- 1) = Inr True"
    and reads: "valid_move_reads start_T 0 (- 1) = [(0, 4), (0, 5), (0, 6)]"
    by (simp_all add: valid_move_def valid_move_reads_def)
  from valid_move_reads_in_grid [of start_T 0 "- 1"] wf
  have "\<forall>(r, c) \<in> set (valid_move_reads start_T 0 (- 1)).
        0 \<le> r \<and> r < BOARD_HEIGHT \<and> 0 \<le> c \<and> c < BOARD_WIDTH \<and>
        board_get (board start_T) r c = Inr (board start_T ! nat r ! nat c)"
    by fast
  then have "list_all (\<lambda>(r, c). 0 \<le> r \<and> r < BOARD_HEIGHT \<and> 0 \<le> c \<and> c < BOARD_WIDTH \<and>
                      board_get (board start_T) r c = Inr (board start_T ! nat r ! nat c))
     (valid_move_reads start_T 0 (- 1))"
    by (simp add: list_all_iff)
  with wf ok reads show ?thesis
    by blast
qed

subsection \<open>Clearing rows\<close>

lemma kept_row_iff: "list_ex (\<lambda>v. v = None) row \<longleftrightarrow> \<not> full_row row"
  by (auto simp: full_row_def list_ex_iff)

lemma clear_full_rows_eq:
  assumes "int (length (board g)) = BOARD_HEIGHT"
  shows "clear_full_rows g =
         g\<lparr> score := score g + 100 * int (length (filter full_row (board g))),
            board := replicate (length (filter full_row (board g))) (replicate (nat BOARD_WIDTH) None)
                     @ filter (\<lambda>row. \<not> full_row row) (board g) \<rparr>"
proof -
  have "length (filter full_row (board g)) + length (filter (\<lambda>row. \<not> full_row row) (board g))
        = length (board g)"
    by (rule sum_length_filter_compl)
  with assms have "BOARD_HEIGHT - int (length (filter (\<lambda>row. \<not> full_row row) (board g)))
        = int (length (filter full_row (board g)))"
    by linarith
  then show ?thesis
    by (simp add: clear_full_rows_def kept_row_iff Let_def)
qed

text \<open>
  C3. On every board of \<^verbatim>\<open>BOARD_HEIGHT\<close> by \<^verbatim>\<open>BOARD_WIDTH\<close> cells with exactly \<open>k\<close> full
  rows, \<^verbatim>\<open>clear_full_rows\<close> leaves the board made of \<open>k\<close> empty rows on top of the rows
  that were not full, in their original order; the board keeps \<^verbatim>\<open>BOARD_HEIGHT\<close> rows of
  \<^verbatim>\<open>BOARD_WIDTH\<close> cells and has no full row left; the score grows by exactly \<open>100 * k\<close>.
  This holds for every \<open>k\<close> from 0 (state unchanged) to \<^verbatim>\<open>BOARD_HEIGHT\<close>; piece, running
  flag and drop speed are untouched.
\<close>

theorem clear_full_rows_law:
  assumes "wf_board (board g)" and "k = length (filter full_row (board g))"
  shows "board (clear_full_rows g) =
           replicate k (replicate (nat BOARD_WIDTH) None) @ filter (\<lambda>row. \<not> full_row row) (board g) \<and>
         score (clear_full_rows g) = score g + 100 * int k \<and>
         int (length (board (clear_full_rows g))) = BOARD_HEIGHT \<and>
         (\<forall>row \<in> set (board (clear_full_rows g)). int (length row) = BOARD_WIDTH) \<and>
         length (filter full_row (board (clear_full_rows g))) = 0 \<and>
         int k \<le> BOARD_HEIGHT \<and>
         (k = 0 \<longrightarrow> clear_full_rows g = g) \<and>
         current_piece (clear_full_rows g) = current_piece g \<and>
         running (clear_full_rows g) = running g \<and>
         drop_speed (clear_full_rows g) = drop_speed g"
proof -
  from assms have len: "int (length (board g)) = BOARD_HEIGHT"
    and wid: "\<forall>row \<in> set (board g). int (length row) = BOARD_WIDTH"
    by (simp_all add: wf_board_def)
  note eq = clear_full_rows_eq [OF len, folded assms(2)]
  have split: "k + length (filter (\<lambda>row. \<not> full_row row) (board g)) = length (board g)"
    unfolding assms(2) by (rule sum_length_filter_compl)
  have b: "board (clear_full_rows g) =
           replicate k (replicate (nat BOARD_WIDTH) None) @ filter (\<lambda>row. \<not> full_row row) (board g)"
    by (simp add: eq)
  have wpos: "0 < BOARD_WIDTH" by (simp add: board_dims)
  have nofull: "filter full_row (board (clear_full_rows g)) = []"
    unfolding b using wpos by (auto simp: filter_empty_conv full_row_def)
  have k0: "k = 0 \<Longrightarrow> clear_full_rows g = g"
  proof -
    assume "k = 0"
    with assms(2) have "\<forall>row \<in> set (board g). \<not> full_row row"
      by (simp add: filter_empty_conv)
    then have "filter (\<lambda>row. \<not> full_row row) (board g) = board g"
      by (simp add: filter_id_conv)
    with \<open>k = 0\<close> show ?thesis by (simp add: eq)
  qed
  show ?thesis
  proof (intro conjI impI)
    show "board (clear_full_rows g) =
           replicate k (replicate (nat BOARD_WIDTH) None) @ filter (\<lambda>row. \<not> full_row row) (board g)"
      by (rule b)
    show "score (clear_full_rows g) = score g + 100 * int k" by (simp add: eq)
    show "int (length (board (clear_full_rows g))) = BOARD_HEIGHT"
      unfolding b using split len by simp
    show "\<forall>row \<in> set (board (clear_full_rows g)). int (length row) = BOARD_WIDTH"
      unfolding b using wid wpos by auto
    show "length (filter full_row (board (clear_full_rows g))) = 0"
      using nofull by simp
    show "int k \<le> BOARD_HEIGHT" using split len by linarith
    show "k = 0 \<Longrightarrow> clear_full_rows g = g" by (rule k0)
    show "current_piece (clear_full_rows g) = current_piece g" by (simp add: eq)
    show "running (clear_full_rows g) = running g" by (simp add: eq)
    show "drop_speed (clear_full_rows g) = drop_speed g" by (simp add: eq)
  qed
qed

theorem clear_full_rows_law_witness:
  "wf_board (board one_full_row) \<and>
   length (filter full_row (board one_full_row)) = 1 \<and>
   board (clear_full_rows one_full_row) =
     replicate 19 (replicate 10 None) @ [Some ''cyan'' # replicate 9 None] \<and>
   score (clear_full_rows one_full_row) = 400 \<and>
   int (length (board (clear_full_rows one_full_row))) = BOARD_HEIGHT"
proof -
  have wf: "wf_board (board one_full_row)"
    by (auto simp: wf_board_def one_full_row_def board_dims)
  have cyan: "\<not> full_row (Some ''cyan'' # replicate 9 None)"
    and red: "full_row (replicate 10 (Some ''red''))"
    and none: "\<not> full_row (replicate 10 None)"
    by (simp_all add: full_row_def)
  have k: "1 = length (filter full_row (board one_full_row))"
    by (simp add: one_full_row_def cyan red none)
  have rest: "filter (\<lambda>row. \<not> full_row row) (board one_full_row)
              = replicate 18 (replicate 10 None) @ [Some ''cyan'' # replicate 9 None]"
    by (simp add: one_full_row_def cyan red none)
  have rep: "replicate 19 (replicate 10 (None::cell))
             = replicate 1 (replicate 10 None) @ replicate 18 (replicate 10 None)"
    using replicate_add [of 1 18 "replicate 10 (None::cell)"] by simp
  note law = clear_full_rows_law [OF wf k]
  from law have "board (clear_full_rows one_full_row) =
      replicate 1 (replicate (nat BOARD_WIDTH) None) @ filter (\<lambda>row. \<not> full_row row) (board one_full_row)"
    by (rule conjunct1)
  then have b: "board (clear_full_rows one_full_row) =
      replicate 19 (replicate 10 None) @ [Some ''cyan'' # replicate 9 None]"
    unfolding rest rep by (simp add: board_dims)
  from law have "score (clear_full_rows one_full_row) = score one_full_row + 100 * int 1"
    by blast
  then have s: "score (clear_full_rows one_full_row) = 400"
    by (simp add: one_full_row_def)
  from law have h: "int (length (board (clear_full_rows one_full_row))) = BOARD_HEIGHT"
    by blast
  from wf k b s h show ?thesis
    by simp
qed

subsection \<open>Spawning\<close>

lemma Piece_init_rows:
  "Piece_init (row0 # rows) col =
     Inr \<lparr> shape = row0 # rows, color = col,
           x = BOARD_WIDTH div 2 - int (length (cells row0)) div 2, y = 0, pixel_y = 0 \<rparr>"
  by (simp add: Piece_init_def list_get_def py_index_def)

lemma choice_in_set: "xs \<noteq> [] \<Longrightarrow> choice xs k \<in> set xs"
  by (simp add: choice_def)

lemma choice_SHAPES: "choice SHAPES ks \<in> set SHAPES"
  by (rule choice_in_set) (simp add: SHAPES_def)

lemma choice_SHAPE_COLORS: "choice SHAPE_COLORS kc \<in> set SHAPE_COLORS"
  by (rule choice_in_set) (simp add: SHAPE_COLORS_def)

lemma SHAPES_nonempty: "sh \<in> set SHAPES \<Longrightarrow> \<exists>row0 rows. sh = row0 # rows"
  by (auto simp: SHAPES_def)

lemma new_piece_eq:
  "new_piece ks kc =
     Inr \<lparr> shape = choice SHAPES ks, color = choice SHAPE_COLORS kc,
           x = BOARD_WIDTH div 2 - int (length (cells (choice SHAPES ks ! 0))) div 2,
           y = 0, pixel_y = 0 \<rparr>"
proof -
  from SHAPES_nonempty [OF choice_SHAPES] obtain row0 rows
    where "choice SHAPES ks = row0 # rows" by blast
  then show ?thesis
    by (simp add: new_piece_def Piece_init_rows)
qed

text \<open>
  C8. A piece built from a shape with first row \<open>row0\<close> starts at
  \<open>x = BOARD_WIDTH div 2 - length row0 div 2\<close> (both divisions rounding down), \<open>y = 0\<close>
  and \<open>pixel_y = 0\<close>. Whatever the generator draws, \<^verbatim>\<open>new_piece\<close> returns such a piece,
  its shape taken from \<^verbatim>\<open>SHAPES\<close> and its colour from \<^verbatim>\<open>SHAPE_COLORS\<close>. The board is 10
  cells wide, so the O shape (two cells wide) spawns at \<open>x = 4\<close>.
\<close>

theorem spawn_anchor:
  "Piece_init (row0 # rows) col =
     Inr \<lparr> shape = row0 # rows, color = col,
           x = BOARD_WIDTH div 2 - int (length (cells row0)) div 2, y = 0, pixel_y = 0 \<rparr> \<and>
   new_piece ks kc =
     Inr \<lparr> shape = choice SHAPES ks, color = choice SHAPE_COLORS kc,
           x = BOARD_WIDTH div 2 - int (length (cells (choice SHAPES ks ! 0))) div 2,
           y = 0, pixel_y = 0 \<rparr> \<and>
   choice SHAPES ks \<in> set SHAPES \<and> choice SHAPE_COLORS kc \<in> set SHAPE_COLORS \<and>
   BOARD_WIDTH = 10 \<and>
   choice SHAPES 1 = [PyList [1, 1], PyList [1, 1]] \<and>
   new_piece 1 kc =
     Inr \<lparr> shape = [PyList [1, 1], PyList [1, 1]], color = choice SHAPE_COLORS kc, x = 4, y = 0, pixel_y = 0 \<rparr>"
proof -
  have O: "choice SHAPES 1 = [PyList [1, 1], PyList [1, 1]]"
    by (simp add: choice_def SHAPES_def)
  have "new_piece 1 kc =
     Inr \<lparr> shape = [PyList [1, 1], PyList [1, 1]], color = choice SHAPE_COLORS kc, x = 4, y = 0, pixel_y = 0 \<rparr>"
    unfolding new_piece_eq O by (simp add: board_dims)
  with O show ?thesis
    using Piece_init_rows new_piece_eq choice_SHAPES choice_SHAPE_COLORS board_dims(1) by blast
qed

subsection \<open>Rotation\<close>

lemma zip_star_Nil: "zip_star [] = []"
  by (simp add: zip_star.simps)

lemma zip_star_empty_row: "[] \<in> set rows \<Longrightarrow> zip_star rows = []"
  by (simp add: zip_star.simps)

lemma zip_star_step:
  "rows \<noteq> [] \<Longrightarrow> [] \<notin> set rows \<Longrightarrow> zip_star rows = map hd rows # zip_star (map tl rows)"
  by (subst zip_star.simps) simp

lemma zip_star_rect:
  "rows \<noteq> [] \<Longrightarrow> \<forall>row \<in> set rows. length row = n \<Longrightarrow>
     zip_star rows = map (\<lambda>i. map (\<lambda>row. row ! i) rows) [0..<n]"
proof (induction n arbitrary: rows)
  case 0
  then have "[] \<in> set rows" by (cases rows) auto
  then show ?case by (simp add: zip_star_empty_row)
next
  case (Suc n)
  then have ne: "[] \<notin> set rows" by auto
  have tl_rows: "map tl rows \<noteq> []" "\<forall>row \<in> set (map tl rows). length row = n"
    using Suc.prems by auto
  have hd0: "map hd rows = map (\<lambda>row. row ! 0) rows"
  proof (rule map_cong [OF refl])
    fix row assume "row \<in> set rows"
    with ne have "row \<noteq> []" by auto
    then show "hd row = row ! 0" by (rule hd_conv_nth)
  qed
  have tl_nth: "map (\<lambda>row. row ! i) (map tl rows) = map (\<lambda>row. row ! Suc i) rows" if "i < n" for i
    using Suc.prems(2) that by (auto simp: nth_tl)
  have "zip_star rows = map hd rows # zip_star (map tl rows)"
    using Suc.prems(1) ne by (rule zip_star_step)
  also have "zip_star (map tl rows) = map (\<lambda>i. map (\<lambda>row. row ! i) (map tl rows)) [0..<n]"
    using tl_rows by (rule Suc.IH)
  also have "\<dots> = map (\<lambda>i. map (\<lambda>row. row ! Suc i) rows) [0..<n]"
    using tl_nth by simp
  also have "map hd rows # \<dots> = map (\<lambda>i. map (\<lambda>row. row ! i) rows) [0..<Suc n]"
    unfolding hd0 by (simp add: upt_conv_Cons map_Suc_upt [symmetric] comp_def del: upt_Suc)
  finally show ?case .
qed

lemma zip_rev_rect:
  assumes "m \<noteq> []" and "\<forall>row \<in> set m. length row = c"
  shows "zip_star (rev m) = map (\<lambda>j. map (\<lambda>row. row ! j) (rev m)) [0..<c]"
  using assms by (intro zip_star_rect) auto

lemma zip_rev_dims:
  assumes "m \<noteq> []" and "\<forall>row \<in> set m. length row = c"
  shows "length (zip_star (rev m)) = c"
    and "\<forall>row \<in> set (zip_star (rev m)). length row = length m"
  unfolding zip_rev_rect [OF assms] by auto

lemma zip_rev_nth:
  assumes "m \<noteq> []" and "\<forall>row \<in> set m. length row = c" and "j < c" and "i < length m"
  shows "zip_star (rev m) ! j ! i = m ! (length m - 1 - i) ! j"
  unfolding zip_rev_rect [OF assms(1,2)] using assms(3,4) by (simp add: rev_nth)

lemma zip_rev_transpose:
  assumes "m \<noteq> []" and "\<forall>row \<in> set m. length row = c"
  shows "zip_star (rev m) = transpose (rev m)"
proof -
  have "transpose (rev m) = map (\<lambda>i. map (\<lambda>j. rev m ! j ! i) [0..<length (rev m)]) [0..<c]"
  proof (rule transpose_rectangle)
    show "rev m = [] \<Longrightarrow> c = 0" using assms(1) by simp
  next
    fix i assume "i < length (rev m)"
    then have "rev m ! i \<in> set (rev m)" by (rule nth_mem)
    with assms(2) show "length (rev m ! i) = c" by simp
  qed
  moreover have "map (\<lambda>j. rev m ! j ! i) [0..<length (rev m)] = map (\<lambda>row. row ! i) (rev m)" for i
    by (rule nth_equalityI) simp_all
  ultimately show ?thesis
    by (simp add: zip_rev_rect [OF assms])
qed

lemma zip_rev_twice:
  assumes "m \<noteq> []" and "\<forall>row \<in> set m. length row = c" and "0 < c"
  shows "zip_star (rev (zip_star (rev m))) = rev (map rev m)"
proof -
  let ?t = "zip_star (rev m)"
  have t_ne: "?t \<noteq> []"
    using zip_rev_dims(1) [OF assms(1,2)] assms(3) by auto
  have t_rect: "\<forall>row \<in> set ?t. length row = length m"
    by (rule zip_rev_dims(2) [OF assms(1,2)])
  have t_len: "length ?t = c"
    by (rule zip_rev_dims(1) [OF assms(1,2)])
  show ?thesis
  proof (rule nth_equalityI)
    show "length (zip_star (rev ?t)) = length (rev (map rev m))"
      using zip_rev_dims(1) [OF t_ne t_rect] by simp
  next
    fix i assume "i < length (zip_star (rev ?t))"
    then have i: "i < length m"
      using zip_rev_dims(1) [OF t_ne t_rect] by simp
    then have row_len: "length (m ! (length m - 1 - i)) = c"
      using assms(2) by simp
    have li: "length (zip_star (rev ?t) ! i) = c"
      using zip_rev_dims(2) [OF t_ne t_rect] i zip_rev_dims(1) [OF t_ne t_rect] t_len
      by simp
    show "zip_star (rev ?t) ! i = rev (map rev m) ! i"
    proof (rule nth_equalityI)
      show "length (zip_star (rev ?t) ! i) = length (rev (map rev m) ! i)"
        using li i row_len by (simp add: rev_nth)
    next
      fix j assume "j < length (zip_star (rev ?t) ! i)"
      with li have j: "j < c" by simp
      have "zip_star (rev ?t) ! i ! j = ?t ! (c - 1 - j) ! i"
        using zip_rev_nth [OF t_ne t_rect i, of j] j t_len by simp
      also have "\<dots> = m ! (length m - 1 - i) ! (c - 1 - j)"
        using zip_rev_nth [OF assms(1,2), of "c - 1 - j" i] i j by simp
      also have "\<dots> = rev (map rev m) ! i ! j"
        using i j row_len by (simp add: rev_nth)
      finally show "zip_star (rev ?t) ! i ! j = rev (map rev m) ! i ! j" .
    qed
  qed
qed

lemma zip_rev_four:
  assumes "m \<noteq> []" and "\<forall>row \<in> set m. length row = c" and "0 < c"
  shows "zip_star (rev (zip_star (rev (zip_star (rev (zip_star (rev m))))))) = m"
proof -
  let ?u = "rev (map rev m)"
  have u: "zip_star (rev (zip_star (rev m))) = ?u"
    by (rule zip_rev_twice [OF assms])
  have "?u \<noteq> []" "\<forall>row \<in> set ?u. length row = c"
    using assms by auto
  then have "zip_star (rev (zip_star (rev ?u))) = rev (map rev ?u)"
    using assms(3) by (rule zip_rev_twice)
  then show ?thesis
    unfolding u by (simp add: rev_map)
qed

lemma rotate_shape_Nil: "rotate_shape [] = []"
  by (simp add: rotate_shape_def zip_star_Nil)

lemma cells_rotate_shape: "map cells (rotate_shape sh) = zip_star (rev (map cells sh))"
  by (simp add: rotate_shape_def rev_map comp_def)

lemma rotate_shape_tuples: "rotate_shape sh = map PyTuple (map cells (rotate_shape sh))"
  by (simp add: rotate_shape_def comp_def)

lemma SHAPES_rect:
  "sh \<in> set SHAPES \<Longrightarrow>
     map cells sh \<noteq> [] \<and> (\<forall>vs \<in> set (map cells sh). length vs = length (cells (hd sh))) \<and>
     0 < length (cells (hd sh))"
  by (auto simp: SHAPES_def)

lemma rotate_shape_four_SHAPES:
  assumes "sh \<in> set SHAPES"
  shows "map cells (rotate_shape (rotate_shape (rotate_shape (rotate_shape sh)))) = map cells sh"
proof -
  from SHAPES_rect [OF assms] have "map cells sh \<noteq> []"
    and "\<forall>vs \<in> set (map cells sh). length vs = length (cells (hd sh))"
    and "0 < length (cells (hd sh))"
    by blast+
  then show ?thesis
    unfolding cells_rotate_shape by (rule zip_rev_four)
qed

text \<open>
  As Python values the two differ: after any rotation the rows are tuples, and the rows
  of \<^verbatim>\<open>SHAPES\<close> are lists.
\<close>

lemma rotate_shape_four_not_identical:
  assumes "sh \<in> set SHAPES"
  shows "rotate_shape (rotate_shape (rotate_shape (rotate_shape sh))) \<noteq> sh"
proof
  let ?t = "rotate_shape (rotate_shape (rotate_shape sh))"
  assume eq: "rotate_shape ?t = sh"
  from assms obtain vs rest where "sh = PyList vs # rest"
    by (auto simp: SHAPES_def)
  with eq rotate_shape_tuples [of ?t] show False
    by (cases "map cells (rotate_shape ?t)") auto
qed

text \<open>
  C7. \<^verbatim>\<open>rotate\<close> changes the shape and nothing else. For a shape of \<open>r \<ge> 1\<close> rows of
  \<open>c\<close> cells each (a list without rows has no column count, and \<^verbatim>\<open>Piece.__init__\<close>
  rejects it), the new shape has \<open>c\<close> rows of \<open>r\<close> cells, its cell \<open>(j, i)\<close> is the
  old cell \<open>(r - 1 - i, j)\<close> (a quarter turn clockwise), and its matrix of cells is the
  transpose of the old rows taken in reverse order. Four rotations of any of the seven
  shapes of \<^verbatim>\<open>SHAPES\<close> give a shape with the same matrix of cells as the original (its
  rows are then tuples, where the original has lists).
\<close>

theorem rotate_clockwise:
  assumes "shape p \<noteq> []" and "\<forall>row \<in> set (shape p). length (cells row) = c"
    and "length (shape p) = r"
  shows "length (shape (rotate p)) = c \<and>
         (\<forall>row \<in> set (shape (rotate p)). length (cells row) = r) \<and>
         (\<forall>j < c. \<forall>i < r. cells (shape (rotate p) ! j) ! i = cells (shape p ! (r - 1 - i)) ! j) \<and>
         map cells (shape (rotate p)) = transpose (rev (map cells (shape p))) \<and>
         rotate p = p\<lparr>shape := shape (rotate p)\<rparr> \<and>
         (\<forall>sh \<in> set SHAPES.
            map cells (rotate_shape (rotate_shape (rotate_shape (rotate_shape sh)))) = map cells sh)"
proof (intro conjI)
  let ?m = "map cells (shape p)"
  have ne: "?m \<noteq> []" and rect: "\<forall>vs \<in> set ?m. length vs = c" and len: "length ?m = r"
    using assms by auto
  have rot: "map cells (shape (rotate p)) = zip_star (rev ?m)"
    by (simp add: rotate_def cells_rotate_shape)
  have lenrot: "length (map cells (shape (rotate p))) = c"
    unfolding rot by (rule zip_rev_dims(1) [OF ne rect])
  then show lenc: "length (shape (rotate p)) = c"
    by simp
  have "\<forall>vs \<in> set (map cells (shape (rotate p))). length vs = r"
    unfolding rot using zip_rev_dims(2) [OF ne rect] len by simp
  then show "\<forall>row \<in> set (shape (rotate p)). length (cells row) = r"
    by simp
  show "\<forall>j < c. \<forall>i < r. cells (shape (rotate p) ! j) ! i = cells (shape p ! (r - 1 - i)) ! j"
  proof (intro allI impI)
    fix j i assume j: "j < c" and i: "i < r"
    have "cells (shape (rotate p) ! j) ! i = map cells (shape (rotate p)) ! j ! i"
      using j lenc by simp
    also have "\<dots> = ?m ! (length ?m - 1 - i) ! j"
      unfolding rot using j i len by (intro zip_rev_nth [OF ne rect]) simp_all
    also have "\<dots> = cells (shape p ! (r - 1 - i)) ! j"
      using i assms(3) by simp
    finally show "cells (shape (rotate p) ! j) ! i = cells (shape p ! (r - 1 - i)) ! j" .
  qed
  show "map cells (shape (rotate p)) = transpose (rev (map cells (shape p)))"
    unfolding rot by (rule zip_rev_transpose [OF ne rect])
  show "rotate p = p\<lparr>shape := shape (rotate p)\<rparr>"
    by (simp add: rotate_def)
  show "\<forall>sh \<in> set SHAPES.
          map cells (rotate_shape (rotate_shape (rotate_shape (rotate_shape sh)))) = map cells sh"
    using rotate_shape_four_SHAPES by blast
qed

lemma rotate_shape_T:
  "rotate_shape [PyList [0, 1, 0], PyList [1, 1, 1]] = [PyTuple [1, 0], PyTuple [1, 1], PyTuple [1, 0]]"
  by (simp add: rotate_shape_def zip_star.simps)

theorem rotate_clockwise_witness:
  "shape (rotate (current_piece start_T)) = [PyTuple [1, 0], PyTuple [1, 1], PyTuple [1, 0]] \<and>
   length (shape (rotate (current_piece start_T))) = 3 \<and>
   list_all (\<lambda>row. length (cells row) = 2) (shape (rotate (current_piece start_T))) \<and>
   map cells (rotate_shape (rotate_shape (rotate_shape (rotate_shape
      [PyList [0, 1, 0], PyList [1, 1, 1]])))) = [[0, 1, 0], [1, 1, 1]]"
proof -
  have s: "shape (current_piece start_T) = [PyList [0, 1, 0], PyList [1, 1, 1]]"
    by (simp add: start_T_def)
  have r: "shape (rotate (current_piece start_T)) = [PyTuple [1, 0], PyTuple [1, 1], PyTuple [1, 0]]"
    by (simp add: rotate_def s rotate_shape_T)
  have T: "[PyList [0, 1, 0], PyList [1, 1, 1]] \<in> set SHAPES"
    by (simp add: SHAPES_def)
  have h1: "shape (current_piece start_T) \<noteq> []" by (simp add: s)
  have h2: "\<forall>row \<in> set (shape (current_piece start_T)). length (cells row) = 3" by (simp add: s)
  have h3: "length (shape (current_piece start_T)) = 2" by (simp add: s)
  note th = rotate_clockwise [OF h1 h2 h3]
  from th have len: "length (shape (rotate (current_piece start_T))) = 3"
    by (rule conjunct1)
  from th have "\<forall>row \<in> set (shape (rotate (current_piece start_T))). length (cells row) = 2"
    by blast
  then have rows: "list_all (\<lambda>row. length (cells row) = 2) (shape (rotate (current_piece start_T)))"
    by (simp only: list_all_iff)
  from th have "\<forall>sh \<in> set SHAPES.
      map cells (rotate_shape (rotate_shape (rotate_shape (rotate_shape sh)))) = map cells sh"
    by blast
  with T have "map cells (rotate_shape (rotate_shape (rotate_shape (rotate_shape
      [PyList [0, 1, 0], PyList [1, 1, 1]])))) = map cells [PyList [0, 1, 0], PyList [1, 1, 1]]"
    by blast
  then have four: "map cells (rotate_shape (rotate_shape (rotate_shape (rotate_shape
      [PyList [0, 1, 0], PyList [1, 1, 1]])))) = [[0, 1, 0], [1, 1, 1]]"
    by simp
  from r len rows four show ?thesis
    by blast
qed

subsection \<open>Key handling\<close>

text \<open>
  C6. A rejected key changes nothing. When \<^verbatim>\<open>valid_move(-1, 0)\<close> is false a Left key
  returns the state it was given, and so does a Right key when \<^verbatim>\<open>valid_move(1, 0)\<close> is
  false; when \<^verbatim>\<open>valid_move(0, 0)\<close> is false with the rotated shape installed, an Up key
  puts the original shape back and returns the state it was given. The whole state is
  equal: the piece's x, y, pixel_y, shape and colour, the board, the score, the running
  flag and the drop speed.
\<close>

theorem rejected_key_noop:
  "(valid_move g (- 1) 0 = Inr False \<longrightarrow> handle_key g ''Left'' = Inr g) \<and>
   (valid_move g 1 0 = Inr False \<longrightarrow> handle_key g ''Right'' = Inr g) \<and>
   (valid_move (g\<lparr>current_piece := rotate (current_piece g)\<rparr>) 0 0 = Inr False \<longrightarrow>
      handle_key g ''Up'' = Inr g)"
  by (simp add: handle_key_def Let_def rotate_def)

lemma cells_of_I: "cells_of [PyList [1, 1, 1, 1]] = [(0,0,1),(0,1,1),(0,2,1),(0,3,1)]"
  by (simp add: cells_of_def)

lemma rotate_shape_I:
  "rotate_shape [PyList [1, 1, 1, 1]] = [PyTuple [1], PyTuple [1], PyTuple [1], PyTuple [1]]"
  by (simp add: rotate_shape_def zip_star.simps)

lemma cells_of_I_up:
  "cells_of [PyTuple [1], PyTuple [1], PyTuple [1], PyTuple [1]] = [(0,0,1),(1,0,1),(2,0,1),(3,0,1)]"
  by (simp add: cells_of_def)

lemma board_get_simps:
  "board_get b r c =
     (case py_index (length b) r of
        None \<Rightarrow> Inl IndexError
      | Some k \<Rightarrow> (case py_index (length (b ! k)) c of
                     None \<Rightarrow> Inl IndexError
                   | Some l \<Rightarrow> Inr (b ! k ! l)))"
  by (simp add: board_get_def list_get_def split: option.splits)

theorem rejected_key_noop_witness:
  "valid_move boxed_I (- 1) 0 = Inr False \<and> handle_key boxed_I ''Left'' = Inr boxed_I \<and>
   valid_move boxed_I 1 0 = Inr False \<and> handle_key boxed_I ''Right'' = Inr boxed_I \<and>
   valid_move (boxed_I\<lparr>current_piece := rotate (current_piece boxed_I)\<rparr>) 0 0 = Inr False \<and>
   handle_key boxed_I ''Up'' = Inr boxed_I"
proof -
  have l: "valid_move boxed_I (- 1) 0 = Inr False"
    by (simp add: valid_move_def valid_move_log_def boxed_I_def cells_of_I board_dims
        board_get_simps py_index_def nth_append)
  have r: "valid_move boxed_I 1 0 = Inr False"
    by (simp add: valid_move_def valid_move_log_def boxed_I_def cells_of_I board_dims
        board_get_simps py_index_def nth_append)
  have u: "valid_move (boxed_I\<lparr>current_piece := rotate (current_piece boxed_I)\<rparr>) 0 0 = Inr False"
    by (simp add: valid_move_def valid_move_log_def boxed_I_def rotate_def rotate_shape_I
        cells_of_I_up board_dims board_get_simps py_index_def nth_append)
  from rejected_key_noop [of boxed_I] l r u show ?thesis
    by blast
qed

subsection \<open>The running flag\<close>

lemma draw_board_wf: "wf_board (board g) \<Longrightarrow> draw_board g = Inr ()"
  by (auto simp: draw_board_def list_all_iff board_get_in_range)

lemma lock_piece_running:
  "\<not> running g \<Longrightarrow> \<not> running (state_after (lock_piece g ks kc))"
  by (auto simp: lock_piece_def state_after_def clear_full_rows_def game_over_def Let_def
      split: sum.splits prod.splits)

lemma check_collision_running:
  "\<not> running g \<Longrightarrow> \<not> running (state_after (check_collision g ks kc))"
  using lock_piece_running [of g ks kc]
  by (auto simp: check_collision_def state_after_def split: sum.splits prod.splits)

lemma handle_key_running:
  "\<not> running g \<Longrightarrow> \<not> running (state_after (handle_key g k))"
  by (auto simp: handle_key_def state_after_def Let_def split: sum.splits bool.splits)

lemma update_running_Inl:
  "\<not> running g \<Longrightarrow> update g ks kc = Inl (e, g') \<Longrightarrow> \<not> running g'"
proof -
  assume nr: "\<not> running g" and u: "update g ks kc = Inl (e, g')"
  let ?p1 = "(current_piece g)\<lparr>pixel_y := pixel_y (current_piece g) + drop_speed g\<rparr>"
  let ?g1 = "g\<lparr>current_piece := ?p1\<rparr>"
  let ?g1' = "?g1\<lparr>current_piece := ?p1\<lparr>pixel_y := (y ?p1 + 1) * BLOCK_SIZE, y := y ?p1 + 1\<rparr>\<rparr>"
  from nr have "\<not> running ?g1'" by simp
  from check_collision_running [OF this, of ks kc] nr u show ?thesis
    by (auto simp: update_def Let_def state_after_def split: if_splits sum.splits prod.splits)
qed

lemma update_running_Inr:
  "update g ks kc = Inr (g', sched) \<Longrightarrow> sched = running g' \<and> (\<not> running g \<longrightarrow> \<not> running g')"
proof -
  assume u: "update g ks kc = Inr (g', sched)"
  let ?p1 = "(current_piece g)\<lparr>pixel_y := pixel_y (current_piece g) + drop_speed g\<rparr>"
  let ?g1 = "g\<lparr>current_piece := ?p1\<rparr>"
  let ?g1' = "?g1\<lparr>current_piece := ?p1\<lparr>pixel_y := (y ?p1 + 1) * BLOCK_SIZE, y := y ?p1 + 1\<rparr>\<rparr>"
  have "\<not> running g \<Longrightarrow> \<not> running (state_after (check_collision ?g1' ks kc))"
    by (rule check_collision_running) simp
  with u show ?thesis
    by (auto simp: update_def Let_def state_after_def split: if_splits sum.splits prod.splits)
qed

lemma handle_key_running_eq: "handle_key g k = Inr g' \<Longrightarrow> running g' = running g"
  by (auto simp: handle_key_def Let_def split: sum.splits bool.splits if_splits)

lemma run_running:
  "\<not> running g \<Longrightarrow>
     (case run (g, pending) es of
        Inl (e, g') \<Rightarrow> \<not> running g'
      | Inr (g', pending') \<Rightarrow> \<not> running g' \<and> (\<not> pending \<longrightarrow> \<not> pending'))"
proof (induction es arbitrary: g pending)
  case Nil
  then show ?case by simp
next
  case (Cons ev es)
  show ?case
  proof (cases ev)
    case (Key k)
    show ?thesis
    proof (cases "handle_key g k")
      case (Inl err)
      with handle_key_running [OF Cons.prems, of k] Key show ?thesis
        by (auto simp: state_after_def split: prod.splits)
    next
      case (Inr g')
      with handle_key_running [OF Cons.prems, of k] have "\<not> running g'"
        by (simp add: state_after_def)
      from Cons.IH [OF this, of pending] Key Inr show ?thesis by simp
    qed
  next
    case (Tick ks kc)
    show ?thesis
    proof (cases pending)
      case False
      with Cons.IH [OF Cons.prems, of False] Tick show ?thesis
        by (auto split: sum.splits prod.splits)
    next
      case True
      show ?thesis
      proof (cases "update g ks kc")
        case (Inl err)
        obtain e g' where "err = (e, g')" by (cases err)
        with update_running_Inl [OF Cons.prems, of ks kc e g'] Inl Tick True show ?thesis
          by simp
      next
        case (Inr s')
        obtain g' sched where s': "s' = (g', sched)" by (cases s')
        with update_running_Inr [of g ks kc g' sched] Inr Cons.prems
        have "\<not> running g'" "\<not> sched" by simp_all
        from Cons.IH [OF this(1), of sched] this(2) Tick True Inr s' show ?thesis
          by (auto split: sum.splits prod.splits)
      qed
    qed
  qed
qed

lemma run_pending_iff_running:
  "pending = running g \<Longrightarrow> run (g, pending) es = Inr (g', pending') \<Longrightarrow> pending' = running g'"
proof (induction es arbitrary: g pending)
  case Nil
  then show ?case by auto
next
  case (Cons ev es)
  show ?case
  proof (cases ev)
    case (Key k)
    with Cons.prems(2) obtain g1 where h: "handle_key g k = Inr g1" and r: "run (g1, pending) es = Inr (g', pending')"
      by (auto split: sum.splits)
    from handle_key_running_eq [OF h] Cons.prems(1) have "pending = running g1" by simp
    from Cons.IH [OF this r] show ?thesis .
  next
    case (Tick ks kc)
    show ?thesis
    proof (cases pending)
      case False
      with Cons.prems Tick Cons.IH [of pending g] show ?thesis by simp
    next
      case True
      with Cons.prems(2) Tick obtain g1 sched where u: "update g ks kc = Inr (g1, sched)"
        and r: "run (g1, sched) es = Inr (g', pending')"
        by (auto split: sum.splits)
      from update_running_Inr [OF u] have "sched = running g1" by simp
      from Cons.IH [OF this r] show ?thesis .
    qed
  qed
qed

lemma new_game_eq:
  "new_game ks kc =
     Inr \<lparr> board = empty_board,
           current_piece = \<lparr> shape = choice SHAPES ks, color = choice SHAPE_COLORS kc,
                             x = BOARD_WIDTH div 2 - int (length (cells (choice SHAPES ks ! 0))) div 2,
                             y = 0, pixel_y = 0 \<rparr>,
           score = 0, running = True, drop_speed = FALL_SPEED \<rparr>"
  by (simp add: new_game_def new_piece_eq)

lemma Tetris_init_eq:
  "Tetris_init ks kc ks' kc' =
     Inr (Inr (\<lparr> board = empty_board,
            current_piece = \<lparr> shape = choice SHAPES ks, color = choice SHAPE_COLORS kc,
                              x = BOARD_WIDTH div 2 - int (length (cells (choice SHAPES ks ! 0))) div 2,
                              y = 0, pixel_y = 1 \<rparr>,
            score = 0, running = True, drop_speed = FALL_SPEED \<rparr>, True))"
  by (simp add: Tetris_init_def new_game_eq update_def Let_def FALL_SPEED_def BLOCK_SIZE_def
      draw_board_wf wf_empty_board)

text \<open>
  C5. \<^verbatim>\<open>running\<close> starts true: it is true in the fields \<^verbatim>\<open>__init__\<close> assigns and after
  the first \<^verbatim>\<open>update\<close> that \<^verbatim>\<open>__init__\<close> calls, which schedules the next tick. It never
  goes back to true: \<^verbatim>\<open>game_over\<close> sets it to false, and from a state where it is false
  \<^verbatim>\<open>clear_full_rows\<close>, \<^verbatim>\<open>lock_piece\<close>, \<^verbatim>\<open>check_collision\<close>, \<^verbatim>\<open>handle_key\<close> and
  \<^verbatim>\<open>update\<close> leave it false, whether they return or raise, and so does every sequence
  of key events and ticks (\<^verbatim>\<open>new_piece\<close> only builds a piece and has no access to the
  flag). \<^verbatim>\<open>update\<close> schedules another tick exactly when \<^verbatim>\<open>running\<close> is true at its
  end, so once \<^verbatim>\<open>running\<close> is false no tick is scheduled any more, and throughout a
  session a tick is pending exactly while \<^verbatim>\<open>running\<close> is true.
\<close>

theorem running_one_way:
  "(\<exists>g0. new_game ks0 kc0 = Inr g0 \<and> running g0) \<and>
   (\<exists>g0. Tetris_init ks0 kc0 ks1 kc1 = Inr (Inr (g0, True)) \<and> running g0) \<and>
   \<not> running (game_over g) \<and>
   (\<not> running g \<longrightarrow>
      \<not> running (clear_full_rows g) \<and>
      \<not> running (state_after (lock_piece g ks kc)) \<and>
      \<not> running (state_after (check_collision g ks kc)) \<and>
      \<not> running (state_after (handle_key g k)) \<and>
      (\<forall>e g'. update g ks kc = Inl (e, g') \<longrightarrow> \<not> running g') \<and>
      (\<forall>g' sched. update g ks kc = Inr (g', sched) \<longrightarrow> \<not> running g' \<and> \<not> sched) \<and>
      (\<forall>e g'. run (g, pending) es = Inl (e, g') \<longrightarrow> \<not> running g') \<and>
      (\<forall>g' pending'. run (g, pending) es = Inr (g', pending') \<longrightarrow>
          \<not> running g' \<and> (\<not> pending \<longrightarrow> \<not> pending'))) \<and>
   (\<forall>g' sched. update g ks kc = Inr (g', sched) \<longrightarrow> sched = running g') \<and>
   (\<forall>g' pending'. pending = running g \<and> run (g, pending) es = Inr (g', pending') \<longrightarrow>
       pending' = running g')"
proof (intro conjI impI allI)
  show "\<exists>g0. new_game ks0 kc0 = Inr g0 \<and> running g0"
    by (simp add: new_game_eq)
  show "\<exists>g0. Tetris_init ks0 kc0 ks1 kc1 = Inr (Inr (g0, True)) \<and> running g0"
    by (simp add: Tetris_init_eq)
  show "\<not> running (game_over g)"
    by (simp add: game_over_def)
next
  assume nr: "\<not> running g"
  show "\<not> running (clear_full_rows g)"
    using nr by (simp add: clear_full_rows_def Let_def)
  show "\<not> running (state_after (lock_piece g ks kc))"
    using nr by (rule lock_piece_running)
  show "\<not> running (state_after (check_collision g ks kc))"
    using nr by (rule check_collision_running)
  show "\<not> running (state_after (handle_key g k))"
    using nr by (rule handle_key_running)
  show "\<not> running g'" if "update g ks kc = Inl (e, g')" for e g'
    using nr that by (rule update_running_Inl)
  show "\<not> running g'" if "update g ks kc = Inr (g', sched)" for g' sched
    using update_running_Inr [OF that] nr by simp
  show "\<not> sched" if "update g ks kc = Inr (g', sched)" for g' sched
    using update_running_Inr [OF that] nr by simp
  show "\<not> running g'" if "run (g, pending) es = Inl (e, g')" for e g'
    using run_running [OF nr, of pending es] that by simp
  show "\<not> running g'" if "run (g, pending) es = Inr (g', pending')" for g' pending'
    using run_running [OF nr, of pending es] that by simp
  show "\<not> pending'" if "run (g, pending) es = Inr (g', pending')" "\<not> pending" for g' pending'
    using run_running [OF nr, of pending es] that by simp
next
  show "sched = running g'" if "update g ks kc = Inr (g', sched)" for g' sched
    using update_running_Inr [OF that] by simp
  show "pending' = running g'"
    if "pending = running g \<and> run (g, pending) es = Inr (g', pending')" for g' pending'
    using that run_pending_iff_running by blast
qed

theorem running_one_way_witness:
  "\<not> running (game_over start_T) \<and>
   update (game_over start_T) 0 0 =
     Inr ((game_over start_T)\<lparr>current_piece := (current_piece start_T)\<lparr>pixel_y := 1\<rparr>\<rparr>, False) \<and>
   \<not> running (state_after (handle_key (game_over start_T) ''Left'')) \<and>
   \<not> running (state_after (lock_piece (game_over start_T) 0 0))"
proof -
  have nr: "\<not> running (game_over start_T)"
    by (simp add: game_over_def)
  have wf: "wf_board (board (game_over start_T))"
    by (simp add: game_over_def start_T_def wf_empty_board)
  have u: "update (game_over start_T) 0 0 =
     Inr ((game_over start_T)\<lparr>current_piece := (current_piece start_T)\<lparr>pixel_y := 1\<rparr>\<rparr>, False)"
    using wf
    by (simp add: update_def Let_def draw_board_wf game_over_def start_T_def FALL_SPEED_def
        BLOCK_SIZE_def)
  from running_one_way [of _ _ _ _ "game_over start_T" 0 0 "''Left''"] nr u show ?thesis
    by blast
qed

subsection \<open>Locking and game over\<close>

lemma update_unfold:
  "update g ks kc =
     (case (if crosses_boundary g then check_collision (fallen g) ks kc
            else Inr (g\<lparr>current_piece := (current_piece g)
                          \<lparr>pixel_y := pixel_y (current_piece g) + drop_speed g\<rparr>\<rparr>)) of
        Inl err \<Rightarrow> Inl err
      | Inr g2 \<Rightarrow>
          (case draw_board g2 of
             Inl e \<Rightarrow> Inl (e, g2)
           | Inr _ \<Rightarrow> Inr (g2\<lparr>drop_speed := FALL_SPEED\<rparr>, running g2)))"
  by (simp add: update_def Let_def crosses_boundary_def fallen_def split: sum.splits)

lemma list_set_length: "list_set xs i v = Inr ys \<Longrightarrow> length ys = length xs"
  by (auto simp: list_set_def split: option.splits)

lemma py_index_less: "py_index n i = Some k \<Longrightarrow> k < n"
  by (auto simp: py_index_def split: if_splits)

lemma board_set_wf:
  assumes "wf_board b" and "board_set b r c v = Inr b'"
  shows "wf_board b'"
proof -
  from assms(2) obtain k l where k: "py_index (length b) r = Some k"
    and l: "py_index (length (b ! k)) c = Some l"
    and b': "b' = b[k := (b ! k)[l := v]]"
    by (auto simp: board_set_def list_get_def list_set_def split: option.splits)
  from k have kl: "k < length b" by (rule py_index_less)
  then have "b ! k \<in> set b" by simp
  with assms(1) have "int (length ((b ! k)[l := v])) = BOARD_WIDTH"
    by (simp add: wf_board_def)
  with assms(1) show ?thesis
    unfolding b' wf_board_def
    by (auto dest!: set_update_subset_insert [THEN subsetD])
qed

lemma write_cells_wf:
  "wf_board b \<Longrightarrow> wf_board (case write_cells b p cs of Inl (e, b') \<Rightarrow> b' | Inr b' \<Rightarrow> b')"
proof (induction cs arbitrary: b)
  case Nil
  then show ?case by simp
next
  case (Cons a cs)
  obtain r c v where a: "a = (r, c, v)" by (cases a)
  show ?case
  proof (cases "v = 1")
    case False
    with Cons a show ?thesis by simp
  next
    case True
    show ?thesis
    proof (cases "board_set b (y p + r) (x p + c) (Some (color p))")
      case (Inl e)
      with True a Cons.prems show ?thesis by simp
    next
      case (Inr b1)
      with Cons.prems have "wf_board b1" by (rule board_set_wf)
      from Cons.IH [OF this] True a Inr show ?thesis by simp
    qed
  qed
qed

lemma clear_full_rows_wf:
  assumes "wf_board (board g)"
  shows "wf_board (board (clear_full_rows g))"
proof -
  from assms have len: "int (length (board g)) = BOARD_HEIGHT"
    by (simp add: wf_board_def)
  have "length (filter full_row (board g)) + length (filter (\<lambda>row. \<not> full_row row) (board g))
        = length (board g)"
    by (rule sum_length_filter_compl)
  with assms show ?thesis
    unfolding clear_full_rows_eq [OF len]
    by (auto simp: wf_board_def board_dims)
qed

lemma valid_move_running: "valid_move (g\<lparr>running := b\<rparr>) dx dy = valid_move g dx dy"
  by (simp add: valid_move_def valid_move_log_def)

lemma valid_move_drop_speed: "valid_move (g\<lparr>drop_speed := s\<rparr>) dx dy = valid_move g dx dy"
  by (simp add: valid_move_def valid_move_log_def)

lemma lock_piece_wf:
  assumes "wf_board (board g)"
  shows "wf_board (board (state_after (lock_piece g ks kc)))"
proof -
  let ?w = "write_cells (board g) (current_piece g) (cells_of (shape (current_piece g)))"
  from write_cells_wf [OF assms, of "current_piece g" "cells_of (shape (current_piece g))"]
  have w: "wf_board (case ?w of Inl (e, b') \<Rightarrow> b' | Inr b' \<Rightarrow> b')" .
  show ?thesis
  proof (cases ?w)
    case (Inl eb)
    with w show ?thesis
      by (auto simp: lock_piece_def state_after_def split: prod.splits)
  next
    case (Inr b)
    with w have "wf_board (board (g\<lparr>board := b\<rparr>))" by simp
    then have "wf_board (board (clear_full_rows (g\<lparr>board := b\<rparr>)))"
      by (rule clear_full_rows_wf)
    with Inr show ?thesis
      by (auto simp: lock_piece_def state_after_def Let_def game_over_def new_piece_eq
          split: sum.splits)
  qed
qed

lemma lock_piece_Inr:
  assumes "lock_piece g ks kc = Inr g'"
  obtains b ok where
    "write_cells (board g) (current_piece g) (cells_of (shape (current_piece g))) = Inr b"
    "valid_move g' 0 1 = Inr ok"
    "new_piece ks kc = Inr (current_piece g')"
    "board g' = board (clear_full_rows (g\<lparr>board := b\<rparr>))"
    "score g' = score (clear_full_rows (g\<lparr>board := b\<rparr>))"
    "drop_speed g' = drop_speed g"
    "running g' = (running g \<and> ok)"
proof -
  from assms obtain b where b:
    "write_cells (board g) (current_piece g) (cells_of (shape (current_piece g))) = Inr b"
    by (auto simp: lock_piece_def split: sum.splits prod.splits)
  obtain p where p: "new_piece ks kc = Inr p" and yp: "y p = 0"
    by (simp add: new_piece_eq)
  let ?g2 = "(clear_full_rows (g\<lparr>board := b\<rparr>))\<lparr>current_piece := p\<rparr>"
  from assms b p obtain ok where ok: "valid_move ?g2 0 1 = Inr ok"
    and g': "g' = (if \<not> ok then game_over ?g2 else ?g2)"
    using yp by (auto simp: lock_piece_def Let_def split: sum.splits if_splits)
  have run2: "running ?g2 = running g"
    by (simp add: clear_full_rows_def Let_def)
  have ds: "drop_speed ?g2 = drop_speed g"
    by (simp add: clear_full_rows_def Let_def)
  show ?thesis
  proof (rule that [of b ok])
    show "write_cells (board g) (current_piece g) (cells_of (shape (current_piece g))) = Inr b"
      by (rule b)
    show "valid_move g' 0 1 = Inr ok"
      using ok by (simp add: g' game_over_def valid_move_running)
    show "new_piece ks kc = Inr (current_piece g')"
      using p by (simp add: g' game_over_def)
    show "board g' = board (clear_full_rows (g\<lparr>board := b\<rparr>))"
      by (simp add: g' game_over_def)
    show "score g' = score (clear_full_rows (g\<lparr>board := b\<rparr>))"
      by (simp add: g' game_over_def)
    show "drop_speed g' = drop_speed g"
      using ds by (simp add: g' game_over_def)
    show "running g' = (running g \<and> ok)"
      using run2 by (simp add: g' game_over_def)
  qed
qed

text \<open>
  C4 (amended). When \<^verbatim>\<open>lock_piece\<close> returns on a board of \<^verbatim>\<open>BOARD_HEIGHT\<close> by
  \<^verbatim>\<open>BOARD_WIDTH\<close> cells, the current piece is the freshly spawned one, at row 0, and
  \<^verbatim>\<open>valid_move(0, 1)\<close> on it is false or true; \<^verbatim>\<open>running\<close> is true afterwards exactly
  when it was true before and \<^verbatim>\<open>valid_move(0, 1)\<close> is true. In particular, when some
  occupied cell of the spawned piece, moved one row down, is outside the columns, below
  the bottom or on a locked cell, \<^verbatim>\<open>running\<close> is false afterwards. The \<^verbatim>\<open>update\<close> that
  performed the lock returns that state and schedules a tick exactly when \<^verbatim>\<open>running\<close>
  is still true.
\<close>

theorem lock_piece_game_over:
  assumes "wf_board (board g)" and "lock_piece g ks kc = Inr g'"
  shows "new_piece ks kc = Inr (current_piece g') \<and>
         y (current_piece g') = 0 \<and>
         (valid_move g' 0 1 = Inr False \<or> valid_move g' 0 1 = Inr True) \<and>
         (running g' \<longleftrightarrow> running g \<and> valid_move g' 0 1 = Inr True) \<and>
         ((\<exists>i j. i < length (shape (current_piece g')) \<and>
                 j < length (cells (shape (current_piece g') ! i)) \<and>
                 cells (shape (current_piece g') ! i) ! j = 1 \<and>
                 cell_blocked (board g') (x (current_piece g') + int j) (int i + 1))
            \<longrightarrow> \<not> running g') \<and>
         (\<forall>g0. crosses_boundary g0 \<and> fallen g0 = g \<and> valid_move g 0 1 = Inr False \<longrightarrow>
               update g0 ks kc = Inr (g'\<lparr>drop_speed := FALL_SPEED\<rparr>, running g'))"
proof -
  from assms(2) obtain b ok where
    vm: "valid_move g' 0 1 = Inr ok"
    and np: "new_piece ks kc = Inr (current_piece g')"
    and rn: "running g' = (running g \<and> ok)"
    by (rule lock_piece_Inr)
  from np have "current_piece g' =
      \<lparr> shape = choice SHAPES ks, color = choice SHAPE_COLORS kc,
        x = BOARD_WIDTH div 2 - int (length (cells (choice SHAPES ks ! 0))) div 2, y = 0, pixel_y = 0 \<rparr>"
    by (simp add: new_piece_eq)
  then have y0: "y (current_piece g') = 0"
    by simp
  from lock_piece_wf [OF assms(1), of ks kc] assms(2) have wf': "wf_board (board g')"
    by (simp add: state_after_def)
  have blocked: "\<not> running g'"
    if "\<exists>i j. i < length (shape (current_piece g')) \<and>
                 j < length (cells (shape (current_piece g') ! i)) \<and>
                 cells (shape (current_piece g') ! i) ! j = 1 \<and>
                 cell_blocked (board g') (x (current_piece g') + int j) (int i + 1)"
  proof -
    from that vm have "ok = False"
      unfolding valid_move_result [OF wf'] y0 by auto
    with rn show ?thesis by simp
  qed
  have upd: "update g0 ks kc = Inr (g'\<lparr>drop_speed := FALL_SPEED\<rparr>, running g')"
    if "crosses_boundary g0 \<and> fallen g0 = g \<and> valid_move g 0 1 = Inr False" for g0
    using that assms(2) draw_board_wf [OF wf']
    by (simp add: update_unfold check_collision_def)
  from vm np y0 rn blocked upd show ?thesis
    by (cases ok) auto
qed

theorem lock_piece_game_over_witness:
  "wf_board (board tall_stack) \<and>
   lock_piece tall_stack 0 0 = Inr tall_stack_over \<and>
   running tall_stack \<and>
   valid_move tall_stack_over 0 1 = Inr False \<and>
   \<not> running tall_stack_over \<and>
   update tall_stack_falling 0 0 = Inr (tall_stack_over\<lparr>drop_speed := FALL_SPEED\<rparr>, False)"
proof -
  have wf: "wf_board (board tall_stack)"
    by (auto simp: wf_board_def tall_stack_def board_dims)
  have lk: "lock_piece tall_stack 0 0 = Inr tall_stack_over"
    by code_simp
  have r: "running tall_stack"
    by (simp add: tall_stack_def)
  have vm: "valid_move tall_stack_over 0 1 = Inr False"
    by code_simp
  have cr: "crosses_boundary tall_stack_falling"
    by code_simp
  have fl: "fallen tall_stack_falling = tall_stack"
    by code_simp
  have vm0: "valid_move tall_stack 0 1 = Inr False"
    by code_simp
  note th = lock_piece_game_over [OF wf lk]
  from th vm have nr: "\<not> running tall_stack_over"
    by simp
  from th cr fl vm0 have "update tall_stack_falling 0 0
      = Inr (tall_stack_over\<lparr>drop_speed := FALL_SPEED\<rparr>, running tall_stack_over)"
    by blast
  with nr wf lk r vm show ?thesis
    by simp
qed

text \<open>
  C4 as stated fails: with locked cells at row 0, columns 3 to 6, and row 1 free, every
  cell of the spawned I piece lies on a locked cell, yet the piece can move one row down,
  so \<^verbatim>\<open>running\<close> stays true and \<^verbatim>\<open>update\<close> schedules the next tick. (Such a board
  is set up by hand; in a session row 0 stays empty, \<open>session_boards\<close>.)
\<close>

theorem spawn_overlap_counterexample:
  "lock_piece top_block 0 0 = Inr top_block_locked \<and>
   current_piece top_block_locked =
     \<lparr> shape = [PyList [1, 1, 1, 1]], color = ''cyan'', x = 3, y = 0, pixel_y = 0 \<rparr> \<and>
   board_get (board top_block_locked) 0 3 = Inr (Some ''red'') \<and>
   board_get (board top_block_locked) 0 4 = Inr (Some ''red'') \<and>
   board_get (board top_block_locked) 0 5 = Inr (Some ''red'') \<and>
   board_get (board top_block_locked) 0 6 = Inr (Some ''red'') \<and>
   valid_move top_block_locked 0 0 = Inr False \<and>
   valid_move top_block_locked 0 1 = Inr True \<and>
   running top_block_locked \<and>
   update top_block_falling 0 0 = Inr (top_block_locked, True)"
  by code_simp

subsection \<open>The gravity step\<close>

lemma check_cells_shift_x:
  "check_cells b (px + d) py 0 dy cs = check_cells b px py d dy cs"
proof (induction cs)
  case Nil
  then show ?case by simp
next
  case (Cons a cs)
  obtain r c v where a: "a = (r, c, v)" by (cases a)
  have "px + d + c + 0 = px + c + d" by simp
  with Cons show ?case
    unfolding a check_cells.simps by (simp only:)
qed

lemma valid_move_shift:
  "valid_move (g\<lparr>current_piece := (current_piece g)\<lparr>x := x (current_piece g) + d\<rparr>\<rparr>) 0 0
     = valid_move g d 0"
  by (simp add: valid_move_def valid_move_log_def check_cells_shift_x)

lemma handle_key_keeps_valid:
  assumes "valid_move g 0 0 = Inr True" and "handle_key g k = Inr g'"
  shows "valid_move g' 0 0 = Inr True"
proof -
  let ?p = "current_piece g"
  have l: "valid_move (g\<lparr>current_piece := ?p\<lparr>x := x ?p - 1\<rparr>\<rparr>) 0 0 = valid_move g (- 1) 0"
    using valid_move_shift [of g "- 1"] by simp
  have r: "valid_move (g\<lparr>current_piece := ?p\<lparr>x := x ?p + 1\<rparr>\<rparr>) 0 0 = valid_move g 1 0"
    by (rule valid_move_shift)
  have u: "(g\<lparr>current_piece := rotate ?p\<rparr>)\<lparr>current_piece := (rotate ?p)\<lparr>shape := shape ?p\<rparr>\<rparr> = g"
    by (simp add: rotate_def)
  from assms show ?thesis
    by (auto simp: handle_key_def Let_def l r u valid_move_drop_speed
        split: sum.splits bool.splits if_splits)
qed

text \<open>
  C2, at a failing input. Key handling keeps the piece on a valid position
  (\<open>handle_key_keeps_valid\<close>), but the gravity step of \<^verbatim>\<open>update\<close> increments \<open>y\<close> without
  asking \<^verbatim>\<open>valid_move\<close> about the new position. In the session below, started by
  \<^verbatim>\<open>__init__\<close> with the T shape, the I piece sits on a valid position at row 17 after a
  Right key; the next tick that crosses the cell boundary moves it to row 18 and returns
  with the same piece, whose last cell lies on a locked cell of the T piece:
  \<^verbatim>\<open>valid_move(0, 0)\<close> is false after the gravity step.
\<close>

theorem gravity_step_overlap:
  "Tetris_init 2 2 0 0 = Inr (Inr (T_start, True)) \<and>
   run (T_start, True) overlap_events = Inr (before_overlap, True) \<and>
   valid_move before_overlap 0 0 = Inr True \<and>
   run (before_overlap, True) [Key ''Down'', Tick 0 0] = Inr (after_overlap, True) \<and>
   current_piece after_overlap = (current_piece before_overlap)\<lparr>y := 18, pixel_y := 540\<rparr> \<and>
   valid_move after_overlap 0 0 = Inr False \<and>
   cells (shape (current_piece after_overlap) ! 0) ! 3 = 1 \<and>
   board_get (board after_overlap) (y (current_piece after_overlap) + 0)
             (x (current_piece after_overlap) + 3) = Inr (Some ''purple'')"
proof (intro conjI)
  show "Tetris_init 2 2 0 0 = Inr (Inr (T_start, True))"
    by (simp add: Tetris_init_eq T_start_def start_T_def choice_def SHAPES_def SHAPE_COLORS_def
        board_dims)
  show "run (T_start, True) overlap_events = Inr (before_overlap, True)"
    by code_simp
  show "valid_move before_overlap 0 0 = Inr True"
    by code_simp
  show "run (before_overlap, True) [Key ''Down'', Tick 0 0] = Inr (after_overlap, True)"
    by code_simp
  show "current_piece after_overlap = (current_piece before_overlap)\<lparr>y := 18, pixel_y := 540\<rparr>"
    by (simp add: after_overlap_def)
  show "valid_move after_overlap 0 0 = Inr False"
    by code_simp
  show "cells (shape (current_piece after_overlap) ! 0) ! 3 = 1"
    by code_simp
  show "board_get (board after_overlap) (y (current_piece after_overlap) + 0)
             (x (current_piece after_overlap) + 3) = Inr (Some ''purple'')"
    by code_simp
qed

lemma update_resets_drop_speed:
  "update g ks kc = Inr (g', sched) \<Longrightarrow> drop_speed g' = FALL_SPEED"
  by (auto simp: update_unfold split: sum.splits if_splits)

text \<open>
  C9, at a failing input. An \<^verbatim>\<open>update\<close> that returns has reset the drop speed
  (\<open>update_resets_drop_speed\<close>). In the session below, started by \<^verbatim>\<open>__init__\<close> with the
  I shape, the piece is turned upright at row 16, where it fits exactly, and Down is
  pressed. The next \<^verbatim>\<open>update\<close> moves it to row 17 unchecked, \<^verbatim>\<open>lock_piece\<close> subscripts
  \<^verbatim>\<open>self.board[20]\<close> and raises \<^verbatim>\<open>IndexError\<close>: the call ends with the drop speed
  still at \<^verbatim>\<open>FAST_DROP_SPEED\<close>.
\<close>

theorem update_raise_keeps_fast_drop:
  "Tetris_init 0 0 0 0 = Inr (Inr (I_start, True)) \<and>
   run (I_start, True) (fast_ticks 16 @ [Key ''Up'', Key ''Down'']) = Inr (before_crash, True) \<and>
   valid_move before_crash 0 0 = Inr True \<and>
   update before_crash 0 0 = Inl (IndexError, crashed) \<and>
   drop_speed crashed = FAST_DROP_SPEED \<and>
   FAST_DROP_SPEED \<noteq> FALL_SPEED"
proof (intro conjI)
  show "Tetris_init 0 0 0 0 = Inr (Inr (I_start, True))"
    by (simp add: Tetris_init_eq I_start_def choice_def SHAPES_def SHAPE_COLORS_def board_dims)
  show "run (I_start, True) (fast_ticks 16 @ [Key ''Up'', Key ''Down'']) = Inr (before_crash, True)"
    by code_simp
  show "valid_move before_crash 0 0 = Inr True"
    by code_simp
  show "update before_crash 0 0 = Inl (IndexError, crashed)"
    by code_simp
  show "drop_speed crashed = FAST_DROP_SPEED"
    by (simp add: crashed_def)
  show "FAST_DROP_SPEED \<noteq> FALL_SPEED"
    by (simp add: FAST_DROP_SPEED_def FALL_SPEED_def)
qed

subsection \<open>Invariants of a session\<close>

lemma handle_key_frame:
  "handle_key g k = Inr g' \<Longrightarrow>
     board g' = board g \<and> y (current_piece g') = y (current_piece g) \<and> score g' = score g"
  by (auto simp: handle_key_def Let_def rotate_def split: sum.splits bool.splits if_splits)

lemma board_set_row0:
  assumes "1 \<le> r" and "board_set b r c v = Inr b'"
  shows "b' ! 0 = b ! 0"
proof -
  from assms(2) obtain k l where k: "py_index (length b) r = Some k"
    and b': "b' = b[k := (b ! k)[l := v]]"
    by (auto simp: board_set_def list_get_def list_set_def split: option.splits)
  from k assms(1) have "k \<noteq> 0"
    by (auto simp: py_index_def split: if_splits)
  then show ?thesis
    unfolding b' by simp
qed

lemma write_cells_row0:
  assumes "1 \<le> y p" and "\<forall>(r, c, v) \<in> set cs. 0 \<le> r" and "write_cells b p cs = Inr b'"
  shows "b' ! 0 = b ! 0"
  using assms(2,3)
proof (induction cs arbitrary: b)
  case Nil
  then show ?case by simp
next
  case (Cons a cs)
  obtain r c v where a: "a = (r, c, v)" by (cases a)
  from Cons.prems(1) a have r: "0 \<le> r" and rest: "\<forall>(r, c, v) \<in> set cs. 0 \<le> r"
    by auto
  show ?case
  proof (cases "v = 1")
    case False
    with Cons.prems(2) a have "write_cells b p cs = Inr b'" by simp
    from Cons.IH [OF rest this] show ?thesis .
  next
    case True
    with Cons.prems(2) a obtain b1
      where s: "board_set b (y p + r) (x p + c) (Some (color p)) = Inr b1"
        and w: "write_cells b1 p cs = Inr b'"
      by (auto split: sum.splits)
    from assms(1) r have "1 \<le> y p + r" by simp
    from board_set_row0 [OF this s] Cons.IH [OF rest w] show ?thesis by simp
  qed
qed

lemma cells_of_rows_nonneg: "\<forall>(r, c, v) \<in> set (cells_of sh). 0 \<le> r"
  by (auto simp: set_cells_of)

lemma clear_full_rows_row0:
  assumes "wf_board (board g)" and "list_all (\<lambda>v. v = None) (board g ! 0)"
  shows "list_all (\<lambda>v. v = None) (board (clear_full_rows g) ! 0)"
proof -
  from assms(1) have len: "int (length (board g)) = BOARD_HEIGHT"
    by (simp add: wf_board_def)
  let ?k = "length (filter full_row (board g))"
  show ?thesis
  proof (cases "?k = 0")
    case True
    then have "\<forall>row \<in> set (board g). \<not> full_row row"
      by (simp add: filter_empty_conv)
    then have "filter (\<lambda>row. \<not> full_row row) (board g) = board g"
      by (simp add: filter_id_conv)
    with True assms(2) show ?thesis
      by (simp add: clear_full_rows_eq [OF len])
  next
    case False
    then show ?thesis
      by (simp add: clear_full_rows_eq [OF len] nth_append list_all_iff)
  qed
qed

lemma lock_piece_inv:
  assumes "wf_board (board g)" and "1 \<le> y (current_piece g)"
    and "list_all (\<lambda>v. v = None) (board g ! 0)" and "lock_piece g ks kc = Inr g'"
  shows "session_inv g'"
proof -
  from assms(4) obtain b where
    w: "write_cells (board g) (current_piece g) (cells_of (shape (current_piece g))) = Inr b"
    and np: "new_piece ks kc = Inr (current_piece g')"
    and bd: "board g' = board (clear_full_rows (g\<lparr>board := b\<rparr>))"
    by (rule lock_piece_Inr)
  from write_cells_wf [OF assms(1), of "current_piece g" "cells_of (shape (current_piece g))"] w
  have wfb: "wf_board b" by simp
  from write_cells_row0 [OF assms(2) cells_of_rows_nonneg w] assms(3)
  have "list_all (\<lambda>v. v = None) (b ! 0)" by simp
  with wfb have "list_all (\<lambda>v. v = None) (board (clear_full_rows (g\<lparr>board := b\<rparr>)) ! 0)"
    by (intro clear_full_rows_row0) simp_all
  moreover from wfb have "wf_board (board (clear_full_rows (g\<lparr>board := b\<rparr>)))"
    by (intro clear_full_rows_wf) simp
  moreover from np have "current_piece g' =
      \<lparr> shape = choice SHAPES ks, color = choice SHAPE_COLORS kc,
        x = BOARD_WIDTH div 2 - int (length (cells (choice SHAPES ks ! 0))) div 2, y = 0, pixel_y = 0 \<rparr>"
    by (simp add: new_piece_eq)
  then have "y (current_piece g') = 0" by simp
  ultimately show ?thesis
    by (simp add: session_inv_def bd)
qed

lemma update_inv:
  assumes "session_inv g" and "update g ks kc = Inr (g', sched)"
  shows "session_inv g'"
proof (cases "crosses_boundary g")
  case False
  with assms show ?thesis
    by (auto simp: update_unfold session_inv_def split: sum.splits)
next
  case True
  from assms(1) have f: "wf_board (board (fallen g))" "1 \<le> y (current_piece (fallen g))"
    "list_all (\<lambda>v. v = None) (board (fallen g) ! 0)"
    by (simp_all add: session_inv_def fallen_def)
  from True assms(2) obtain g2 where cc: "check_collision (fallen g) ks kc = Inr g2"
    and g': "g' = g2\<lparr>drop_speed := FALL_SPEED\<rparr>"
    by (auto simp: update_unfold split: sum.splits)
  have "session_inv g2"
  proof (cases "valid_move (fallen g) 0 1 = Inr True")
    case True
    with cc f show ?thesis
      by (auto simp: check_collision_def session_inv_def)
  next
    case False
    with cc have "lock_piece (fallen g) ks kc = Inr g2"
      by (auto simp: check_collision_def split: sum.splits if_splits)
    from lock_piece_inv [OF f this] show ?thesis .
  qed
  then show ?thesis
    by (simp add: g' session_inv_def)
qed

lemma run_inv:
  "session_inv g \<Longrightarrow> run (g, pending) es = Inr (g', pending') \<Longrightarrow> session_inv g'"
proof (induction es arbitrary: g pending)
  case Nil
  then show ?case by auto
next
  case (Cons ev es)
  show ?case
  proof (cases ev)
    case (Key k)
    with Cons.prems(2) obtain g1 where h: "handle_key g k = Inr g1"
      and r: "run (g1, pending) es = Inr (g', pending')"
      by (auto split: sum.splits)
    from handle_key_frame [OF h] Cons.prems(1) have "session_inv g1"
      by (simp add: session_inv_def)
    from Cons.IH [OF this r] show ?thesis .
  next
    case (Tick ks kc)
    show ?thesis
    proof (cases pending)
      case False
      with Cons.prems Tick Cons.IH [of g pending] show ?thesis by simp
    next
      case True
      with Cons.prems(2) Tick obtain g1 sched where u: "update g ks kc = Inr (g1, sched)"
        and r: "run (g1, sched) es = Inr (g', pending')"
        by (auto split: sum.splits)
      from Cons.IH [OF update_inv [OF Cons.prems(1) u] r] show ?thesis .
    qed
  qed
qed

lemma session_inv_init:
  "Tetris_init ks kc ks' kc' = Inr (Inr (g0, sched)) \<Longrightarrow> session_inv g0"
proof -
  assume "Tetris_init ks kc ks' kc' = Inr (Inr (g0, sched))"
  then have b: "board g0 = empty_board" and y0: "y (current_piece g0) = 0"
    by (auto simp: Tetris_init_eq)
  have "list_all (\<lambda>v. v = None) (empty_board ! 0)"
    by (simp add: empty_board_def board_dims list_all_iff)
  with b y0 show ?thesis
    by (simp add: session_inv_def wf_empty_board)
qed

text \<open>
  Every state of a session, from \<^verbatim>\<open>__init__\<close> through any key events and ticks, has a
  board of \<^verbatim>\<open>BOARD_HEIGHT\<close> by \<^verbatim>\<open>BOARD_WIDTH\<close> cells whose row 0 is empty:
  \<^verbatim>\<open>lock_piece\<close> runs only after \<open>y\<close> has been incremented, and cleared rows move the
  others down.
\<close>

lemma session_boards:
  assumes "Tetris_init ks kc ks' kc' = Inr (Inr (g0, sched))"
    and "run (g0, sched) es = Inr (g, pending)"
  shows "wf_board (board g)" and "list_all (\<lambda>v. v = None) (board g ! 0)"
  using run_inv [OF session_inv_init [OF assms(1)] assms(2)]
  by (simp_all add: session_inv_def)

lemma board_set_in_range:
  assumes "wf_board b" "0 \<le> r" "r < BOARD_HEIGHT" "0 \<le> c" "c < BOARD_WIDTH"
  shows "\<exists>b'. board_set b r c v = Inr b'"
proof -
  from assms have r: "nat r < length b" by (auto simp: wf_board_def)
  then have "b ! nat r \<in> set b" by simp
  with assms have "c < int (length (b ! nat r))" by (simp add: wf_board_def)
  with assms r show ?thesis
    by (simp add: board_set_def list_get_in_range list_set_def py_index_def wf_board_def)
qed

lemma write_cells_in_range:
  assumes "wf_board b"
    and "\<forall>(r, c, v) \<in> set cs. v = 1 \<longrightarrow>
           0 \<le> y p + r \<and> y p + r < BOARD_HEIGHT \<and> 0 \<le> x p + c \<and> x p + c < BOARD_WIDTH"
  shows "\<exists>b'. write_cells b p cs = Inr b'"
  using assms
proof (induction cs arbitrary: b)
  case Nil
  then show ?case by simp
next
  case (Cons a cs)
  obtain r c v where a: "a = (r, c, v)" by (cases a)
  from Cons.prems(2) have rest: "\<forall>(r, c, v) \<in> set cs. v = 1 \<longrightarrow>
           0 \<le> y p + r \<and> y p + r < BOARD_HEIGHT \<and> 0 \<le> x p + c \<and> x p + c < BOARD_WIDTH"
    by simp
  show ?case
  proof (cases "v = 1")
    case False
    with Cons.IH [OF Cons.prems(1) rest] a show ?thesis by simp
  next
    case True
    with Cons.prems(2) a have "0 \<le> y p + r" "y p + r < BOARD_HEIGHT" "0 \<le> x p + c" "x p + c < BOARD_WIDTH"
      by auto
    from board_set_in_range [OF Cons.prems(1) this] obtain b1
      where s: "board_set b (y p + r) (x p + c) (Some (color p)) = Inr b1" by blast
    from board_set_wf [OF Cons.prems(1) s] have "wf_board b1" .
    from Cons.IH [OF this rest] True a s show ?thesis by simp
  qed
qed

lemma lock_piece_returns:
  assumes "wf_board (board g)" and "0 \<le> y (current_piece g)" and "valid_move g 0 0 = Inr True"
  shows "\<exists>g'. lock_piece g ks kc = Inr g'"
proof -
  let ?p = "current_piece g"
  have inside: "\<forall>(r, c, v) \<in> set (cells_of (shape ?p)). v = 1 \<longrightarrow>
           0 \<le> y ?p + r \<and> y ?p + r < BOARD_HEIGHT \<and> 0 \<le> x ?p + c \<and> x ?p + c < BOARD_WIDTH"
  proof (clarify)
    fix r c assume "(r, c, 1) \<in> set (cells_of (shape ?p))"
    then obtain i j where ij: "i < length (shape ?p)" "j < length (cells (shape ?p ! i))"
      "cells (shape ?p ! i) ! j = 1" and r: "r = int i" and c: "c = int j"
      by (auto simp: set_cells_of)
    from assms(3) ij have "\<not> cell_blocked (board g) (x ?p + int j + 0) (y ?p + int i + 0)"
      unfolding valid_move_result [OF assms(1)] by blast
    with assms(2) show "0 \<le> y ?p + r \<and> y ?p + r < BOARD_HEIGHT \<and> 0 \<le> x ?p + c \<and> x ?p + c < BOARD_WIDTH"
      unfolding r c by (auto simp: cell_blocked_def)
  qed
  from write_cells_in_range [OF assms(1) inside] obtain b
    where w: "write_cells (board g) ?p (cells_of (shape ?p)) = Inr b" by blast
  from write_cells_wf [OF assms(1), of ?p "cells_of (shape ?p)"] w have "wf_board b" by simp
  then have wf1: "wf_board (board (clear_full_rows (g\<lparr>board := b\<rparr>)))"
    by (intro clear_full_rows_wf) simp
  obtain p where p: "new_piece ks kc = Inr p"
    by (simp add: new_piece_eq)
  let ?g2 = "(clear_full_rows (g\<lparr>board := b\<rparr>))\<lparr>current_piece := p\<rparr>"
  from wf1 have "wf_board (board ?g2)" by simp
  from valid_move_total [OF this, of 0 1] obtain ok where "valid_move ?g2 0 1 = Inr ok" by blast
  with w p show ?thesis
    by (simp add: lock_piece_def Let_def)
qed

text \<open>
  \<^verbatim>\<open>update\<close> returns, and has then reset the drop speed, whenever the position the
  gravity step moves the piece to is a valid one (or no step is due). It can only raise
  after a gravity step onto an invalid position.
\<close>

lemma update_returns:
  assumes "wf_board (board g)" and "0 \<le> y (current_piece g)"
    and "crosses_boundary g \<longrightarrow> valid_move (fallen g) 0 0 = Inr True"
  shows "\<exists>g' sched. update g ks kc = Inr (g', sched)"
proof (cases "crosses_boundary g")
  case False
  with assms(1) show ?thesis
    by (simp add: update_unfold draw_board_wf)
next
  case True
  have f: "wf_board (board (fallen g))" "0 \<le> y (current_piece (fallen g))"
    using assms(1,2) by (simp_all add: fallen_def)
  from True assms(3) have v: "valid_move (fallen g) 0 0 = Inr True" by simp
  have "\<exists>g2. check_collision (fallen g) ks kc = Inr g2"
  proof -
    from valid_move_total [OF f(1), of 0 1] obtain ok where ok: "valid_move (fallen g) 0 1 = Inr ok"
      by blast
    with lock_piece_returns [OF f v, of ks kc] show ?thesis
      by (auto simp: check_collision_def)
  qed
  then obtain g2 where cc: "check_collision (fallen g) ks kc = Inr g2" by blast
  have "wf_board (board g2)"
  proof (cases "valid_move (fallen g) 0 1 = Inr True")
    case True
    with cc f(1) show ?thesis by (auto simp: check_collision_def)
  next
    case False
    with cc have "lock_piece (fallen g) ks kc = Inr g2"
      by (auto simp: check_collision_def split: sum.splits if_splits)
    with lock_piece_wf [OF f(1), of ks kc] show ?thesis
      by (simp add: state_after_def)
  qed
  with True cc show ?thesis
    by (simp add: update_unfold draw_board_wf)
qed

end
